theory Spec2Isabelle
  imports Main "HOL-Library.Word"
begin

unbundle bit_operations_syntax

section \<open>Sender side of the DiffCopy file-synchronisation protocol (pkg/fssync/diffcopy.go)\<close>

subsection \<open>Errors\<close>

text \<open>
  Go error values. \<open>Errorf m\<close> is the value of \<open>errors.Errorf\<close> with formatted message \<open>m\<close>;
  \<open>Wrapped e m\<close> is \<open>errors.Wrapf(e, m)\<close> for a non-nil \<open>e\<close>; \<open>WithStack e\<close> is
  \<open>errors.WithStack(e)\<close>; \<open>External m\<close> is an error handed over by a collaborator (the
  transport or the filesystem) whose message is \<open>m\<close>. A Go \<open>error\<close> that may be nil is an
  \<open>error option\<close>, with \<open>None\<close> for nil.
\<close>

datatype error =
    EOF
  | ErrShortWrite
  | errInvalidWrite
  | Canceled
  | EBADMSG
  | External string
  | Errorf string
  | PathError string string error
  | WithStack error
  | Wrapped error string

text \<open>\<open>err.Error()\<close>: the message of an error.\<close>

fun Error :: "error \<Rightarrow> string" where
  "Error EOF = ''EOF''"
| "Error ErrShortWrite = ''short write''"
| "Error errInvalidWrite = ''invalid write result''"
| "Error Canceled = ''context canceled''"
| "Error EBADMSG = ''bad message''"
| "Error (External m) = m"
| "Error (Errorf m) = m"
| "Error (PathError op p e) = op @ '' '' @ p @ '': '' @ Error e"
| "Error (WithStack e) = Error e"
| "Error (Wrapped e m) = m @ '': '' @ Error e"

text \<open>\<open>errors.Wrapf\<close> returns nil for a nil error.\<close>

definition Wrapf :: "error option \<Rightarrow> string \<Rightarrow> error option" where
  "Wrapf err m = (case err of None \<Rightarrow> None | Some e \<Rightarrow> Some (Wrapped e m))"

text \<open>The verb \<open>%d\<close> on an unsigned integer: its decimal digits.\<close>

fun decimal :: "nat \<Rightarrow> string" where
  "decimal n = (if n < 10 then [char_of (48 + n)]
                else decimal (n div 10) @ [char_of (48 + n mod 10)])"

declare decimal.simps [simp del]

subsection \<open>Packets\<close>

type_synonym byte = "8 word"
type_synonym uint32 = "32 word"

text \<open>The conversions \<open>[]byte(s)\<close> and (for the verb \<open>%s\<close>) from bytes to a string.\<close>

definition bytes :: "string \<Rightarrow> byte list" where
  "bytes s = map (\<lambda>c. of_char c) s"

definition string_of :: "byte list \<Rightarrow> string" where
  "string_of bs = map (\<lambda>b. char_of (unat b)) bs"

datatype PacketType = PACKET_STAT | PACKET_REQ | PACKET_DATA | PACKET_FIN | PACKET_ERR

record Stat =
  Path :: string
  Mode :: uint32
  Uid :: uint32
  Gid :: uint32
  Size :: int
  ModTime :: int
  Linkname :: string
  Devmajor :: int
  Devminor :: int
  Xattrs :: "(string \<times> byte list) list"

text \<open>
  \<open>types.Packet\<close>. A field the source leaves out of a composite literal has its zero
  value: \<open>PACKET_STAT\<close>, nil (\<open>None\<close>), \<open>0\<close> and the empty payload.
\<close>

record Packet =
  Type :: PacketType
  Stat :: "Stat option"
  ID :: uint32
  Data :: "byte list"

definition Packet0 :: Packet where
  "Packet0 = \<lparr>Type = PACKET_STAT, Stat = None, ID = 0, Data = []\<rparr>"

subsection \<open>The collaborators: transport and filesystem\<close>

text \<open>
  The transport (the \<open>Stream\<close> interface) is external. Its state is the list of packets it
  has accepted, the outcomes of the coming \<open>SendMsg\<close> calls (\<open>None\<close>: accepted, \<open>Some e\<close>:
  refused with \<open>e\<close>; once the list is used up every send is accepted). The receiving
  half is the list of the results of the coming \<open>RecvMsg\<close> calls; once it is used up,
  the peer has closed the stream and \<open>RecvMsg\<close> returns \<open>io.EOF\<close>.
\<close>

record Stream =
  sent :: "Packet list"
  send_outcomes :: "error option list"

type_synonym incoming = "(error + Packet) list"

definition Stream_SendMsg :: "Packet \<Rightarrow> Stream \<Rightarrow> error option \<times> Stream" where
  "Stream_SendMsg m c =
     (case send_outcomes c of
        [] \<Rightarrow> (None, c\<lparr>sent := sent c @ [m]\<rparr>)
      | None # os \<Rightarrow> (None, c\<lparr>sent := sent c @ [m], send_outcomes := os\<rparr>)
      | Some e # os \<Rightarrow> (Some e, c\<lparr>send_outcomes := os\<rparr>))"

definition RecvMsg :: "incoming \<Rightarrow> (error + Packet) \<times> incoming" where
  "RecvMsg inc =
     (case inc of
        [] \<Rightarrow> (Inl EOF, [])
      | r # rs \<Rightarrow> (r, rs))"

text \<open>
  \<open>syncStream.SendMsg\<close>: the send of the embedded stream between \<open>Lock\<close> and \<open>Unlock\<close>.
  In this sequential model the lock has no effect.
\<close>

definition SendMsg :: "Packet \<Rightarrow> Stream \<Rightarrow> error option \<times> Stream" where
  "SendMsg m ss = (let (err, ss') = Stream_SendMsg m ss in (err, ss'))"

text \<open>
  An \<open>io.Reader\<close> over an open file is the list of what it still delivers: each element is
  the bytes available at that point and the error that comes with their last byte (nil,
  \<open>io.EOF\<close> or a read error). \<open>Read\<close> into a buffer of \<open>n\<close> bytes returns at most \<open>n\<close> of
  them; a reader with nothing left returns \<open>0, io.EOF\<close>.
\<close>

type_synonym Reader = "(byte list \<times> error option) list"

definition Read :: "nat \<Rightarrow> Reader \<Rightarrow> (byte list \<times> error option) \<times> Reader" where
  "Read n r =
     (case r of
        [] \<Rightarrow> (([], Some EOF), [])
      | (d, e) # rest \<Rightarrow>
          if length d \<le> n then ((d, e), rest)
          else ((take n d, None), (drop n d, e) # rest))"

text \<open>
  A walk callback is invoked with \<open>(path, de, err)\<close>. \<open>de.Info()\<close> returns an error or a
  file info, whose \<open>Sys()\<close> either is a \<open>*types.Stat\<close> or is not.
\<close>

datatype Sys = SysStat Stat | SysOther

record visit =
  v_path :: string
  v_info :: "error + Sys"
  v_err :: "error option"

record FS =
  tree :: "visit list"
  Open :: "string \<Rightarrow> error + Reader"

subsection \<open>The sender\<close>

record sendHandle =
  h_id :: uint32
  h_path :: string

text \<open>
  The \<open>sender\<close> struct. \<open>sendpipeline\<close> is the content of the channel, oldest first, and
  \<open>pipeline_closed\<close> records \<open>close(s.sendpipeline)\<close>. The mutex \<open>mu\<close> and the unused
  \<open>progressCurrent\<close> have no counterpart.
\<close>

record sender =
  conn :: Stream
  fs :: FS
  files :: "uint32 \<rightharpoonup> string"
  sendpipeline :: "sendHandle list"
  pipeline_closed :: bool

text \<open>\<open>s.conn.SendMsg(p)\<close> on the sender's state.\<close>

definition conn_SendMsg :: "Packet \<Rightarrow> sender \<Rightarrow> error option \<times> sender" where
  "conn_SendMsg p s = (let (err, c) = SendMsg p (conn s) in (err, s\<lparr>conn := c\<rparr>))"

text \<open>\<open>fileSender.Write\<close>; the receiver \<open>fs\<close> is given by its \<open>id\<close> and the sender.\<close>

definition Write :: "uint32 \<Rightarrow> byte list \<Rightarrow> sender \<Rightarrow> (int \<times> error option) \<times> sender" where
  "Write fid dt s =
     (if length dt = 0 then ((0, None), s)
      else
        (let p = Packet0\<lparr>Type := PACKET_DATA, ID := fid, Data := dt\<rparr> in
         case conn_SendMsg p s of
           (Some err, s') \<Rightarrow> ((0, Some err), s')
         | (None, s') \<Rightarrow> ((int (length dt), None), s')))"

text \<open>
  \<open>io.CopyBuffer\<close> of the Go library, for a source without \<open>WriteTo\<close> (the source wraps
  the file in \<open>struct{ io.Reader }\<close>) and a destination without \<open>ReadFrom\<close>: the loop
  \<^verbatim>\<open>
  for {
      nr, er := src.Read(buf)
      if nr > 0 {
          nw, ew := dst.Write(buf[0:nr])
          if nw < 0 || nr < nw { nw = 0; if ew == nil { ew = errInvalidWrite } }
          written += int64(nw)
          if ew != nil { err = ew; break }
          if nr != nw { err = ErrShortWrite; break }
      }
      if er != nil { if er != EOF { err = er }; break }
  }
  return written, err
  \<close>
  with the destination \<open>&fileSender{sender: s, id: fid}\<close>.
\<close>

definition bufsize :: nat where
  "bufsize = 2 ^ 20"

definition rsize :: "Reader \<Rightarrow> nat" where
  "rsize r = sum_list (map (\<lambda>(d, e). Suc (length d)) r)"

function CopyBuffer :: "uint32 \<Rightarrow> Reader \<Rightarrow> int \<Rightarrow> sender \<Rightarrow> (int \<times> error option) \<times> sender" where
  "CopyBuffer fid src written s =
     (case Read bufsize src of
        ((d, er), src') \<Rightarrow>
          if int (length d) > 0 then
            (case Write fid d s of
               ((nw0, ew0), s') \<Rightarrow>
                 (let nr = int (length d);
                      nw = (if nw0 < 0 \<or> nr < nw0 then 0 else nw0);
                      ew = (if nw0 < 0 \<or> nr < nw0
                            then (if ew0 = None then Some errInvalidWrite else ew0) else ew0);
                      written' = written + nw
                  in if ew \<noteq> None then ((written', ew), s')
                     else if nr \<noteq> nw then ((written', Some ErrShortWrite), s')
                     else if er \<noteq> None
                       then ((written', if er \<noteq> Some EOF then er else None), s')
                     else CopyBuffer fid src' written' s'))
          else if er \<noteq> None then ((written, if er \<noteq> Some EOF then er else None), s)
          else CopyBuffer fid src' written s)"
  by pat_completeness auto
termination
  by (relation "measure (\<lambda>(fid, src, written, s). rsize src)")
     (auto simp: Read_def rsize_def bufsize_def split: list.splits prod.splits if_splits)

declare CopyBuffer.simps [simp del]

text \<open>
  \<open>sender.sendFile\<close>. The deferred \<open>f.Close()\<close> and the buffer taken from and returned to
  \<open>bufPool\<close> have no effect on what is sent or returned; the buffer's length is \<open>bufsize\<close>.
\<close>

definition sendFile :: "sendHandle \<Rightarrow> sender \<Rightarrow> error option \<times> sender" where
  "sendFile h s =
     (case Open (fs s) (h_path h) of
        Inr f \<Rightarrow>
          (case CopyBuffer (h_id h) f 0 s of
             ((n, Some err), s') \<Rightarrow> (Some err, s')
           | ((n, None), s') \<Rightarrow>
               conn_SendMsg (Packet0\<lparr>ID := h_id h, Type := PACKET_DATA\<rparr>) s')
      | Inl err \<Rightarrow> conn_SendMsg (Packet0\<lparr>ID := h_id h, Type := PACKET_DATA\<rparr>) s)"

text \<open>
  The mode bits of the Go library (\<open>os.ModeDir = 1 << 31\<close> and so on) and \<open>os.ModeType\<close>.
\<close>

definition ModeDir :: uint32 where "ModeDir = push_bit 31 1"
definition ModeSymlink :: uint32 where "ModeSymlink = push_bit 27 1"
definition ModeDevice :: uint32 where "ModeDevice = push_bit 26 1"
definition ModeNamedPipe :: uint32 where "ModeNamedPipe = push_bit 25 1"
definition ModeSocket :: uint32 where "ModeSocket = push_bit 24 1"
definition ModeCharDevice :: uint32 where "ModeCharDevice = push_bit 21 1"
definition ModeIrregular :: uint32 where "ModeIrregular = push_bit 19 1"

definition ModeType :: uint32 where
  "ModeType = ModeDir OR ModeSymlink OR ModeNamedPipe OR ModeSocket OR ModeDevice
              OR ModeCharDevice OR ModeIrregular"

definition fileCanRequestData :: "uint32 \<Rightarrow> bool" where
  "fileCanRequestData m = (m AND ModeType = 0)"

text \<open>
  The function literal that \<open>walk\<close> passes to \<open>s.fs.Walk\<close>. It closes over the counter
  \<open>i\<close> and the sender, which it takes and returns here.
\<close>

definition walkFn :: "visit \<Rightarrow> uint32 \<times> sender \<Rightarrow> error option \<times> (uint32 \<times> sender)" where
  "walkFn v = (\<lambda>(i, s).
     case v_err v of
       Some err \<Rightarrow> (Some err, (i, s))
     | None \<Rightarrow>
        (case v_info v of
           Inl err \<Rightarrow> (Some err, (i, s))
         | Inr SysOther \<Rightarrow>
             (Some (WithStack (PathError ''fileinfo without stat info'' (v_path v) EBADMSG)),
              (i, s))
         | Inr (SysStat stat) \<Rightarrow>
             (let p = Packet0\<lparr>Type := PACKET_STAT, Stat := Some stat\<rparr>;
                  s1 = (if fileCanRequestData (Mode stat)
                        then s\<lparr>files := (files s)(i \<mapsto> Path stat)\<rparr> else s);
                  i' = i + 1
              in case conn_SendMsg p s1 of
                   (err, s2) \<Rightarrow> (Wrapf err (''failed to send stat '' @ v_path v), (i', s2)))))"

text \<open>
  Modelled from the spec: \<open>FS.Walk\<close> (the filesystem abstraction of the repository, not
  among the sources), \<open>walk(root, visit(path, metadata) -> error) -> error\<close>: it calls the
  function once per entry, in its order, and stops at the first error the function
  returns, which is its own result.
\<close>

fun Walk :: "visit list \<Rightarrow> (visit \<Rightarrow> 'a \<Rightarrow> error option \<times> 'a) \<Rightarrow> 'a \<Rightarrow> error option \<times> 'a" where
  "Walk [] fn a = (None, a)"
| "Walk (v # vs) fn a =
     (case fn v a of
        (Some err, a') \<Rightarrow> (Some err, a')
      | (None, a') \<Rightarrow> Walk vs fn a')"

text \<open>\<open>sender.walk\<close>.\<close>

definition walk :: "sender \<Rightarrow> error option \<times> sender" where
  "walk s =
     (case Walk (tree (fs s)) walkFn (0, s) of
        (Some err, (i, s')) \<Rightarrow> (Some err, s')
      | (None, (i, s')) \<Rightarrow>
          (case conn_SendMsg (Packet0\<lparr>Type := PACKET_STAT\<rparr>) s' of
             (err, s'') \<Rightarrow> (Wrapf err ''failed to send last stat'', s'')))"

text \<open>
  \<open>sender.queue\<close>. The lookup and the delete happen under one hold of the lock, and are one
  step here. The send on the channel waits while the channel holds 128 handles; the handle
  it delivers is the same.
\<close>

definition queue :: "uint32 \<Rightarrow> sender \<Rightarrow> error option \<times> sender" where
  "queue fid s =
     (case files s fid of
        None \<Rightarrow> (Some (Errorf (''invalid file id '' @ decimal (unat fid))), s)
      | Some p \<Rightarrow>
          (None, s\<lparr>files := (files s)(fid := None),
                    sendpipeline := sendpipeline s @ [\<lparr>h_id = fid, h_path = p\<rparr>]\<rparr>))"

subsection \<open>The three tasks of \<open>run\<close>\<close>

text \<open>
  The context of the error group: done with the error of the caller's context when that is
  done, and cancelled once a task of the group has returned an error.
\<close>

definition ctx_Err :: "error option \<Rightarrow> error option \<Rightarrow> error option" where
  "ctx_Err parent g =
     (case parent of
        Some e \<Rightarrow> Some e
      | None \<Rightarrow> (case g of Some e \<Rightarrow> Some Canceled | None \<Rightarrow> None))"

text \<open>The group keeps the first error a task returns.\<close>

definition errOnce :: "error option \<Rightarrow> error option \<Rightarrow> error option" where
  "errOnce g r = (case g of Some e \<Rightarrow> Some e | None \<Rightarrow> r)"

text \<open>The first task: the walk, and an ERR packet when it fails.\<close>

definition walk_task :: "sender \<Rightarrow> error option \<times> sender" where
  "walk_task s =
     (case walk s of
        (Some err, s1) \<Rightarrow>
          (case conn_SendMsg (Packet0\<lparr>Type := PACKET_ERR, Data := bytes (Error err)\<rparr>) s1 of
             (_, s2) \<Rightarrow> (Some err, s2))
      | (None, s1) \<Rightarrow> (None, s1))"

text \<open>The outcome of one iteration of a loop: go on, or return from the task.\<close>

datatype 'a flow = Next | Return 'a

text \<open>
  One iteration of a worker's loop \<open>for h := range s.sendpipeline\<close>, for the handle \<open>h\<close> it
  has received; \<open>ctxe\<close> is \<open>ctx.Err()\<close> at that time.
\<close>

definition worker_iter :: "error option \<Rightarrow> sendHandle \<Rightarrow> sender \<Rightarrow> error option flow \<times> sender" where
  "worker_iter ctxe h s =
     (case ctxe of
        Some e \<Rightarrow> (Return (Some e), s)
      | None \<Rightarrow>
          (case sendFile h s of
             (Some err, s') \<Rightarrow> (Return (Some err), s')
           | (None, s') \<Rightarrow> (Next, s')))"

text \<open>One iteration of the receive loop of the third task.\<close>

definition recv_iter ::
  "error option \<Rightarrow> incoming \<Rightarrow> sender \<Rightarrow> error option flow \<times> incoming \<times> sender" where
  "recv_iter ctxe inc s =
     (case ctxe of
        Some e \<Rightarrow> (Return (Some e), inc, s)
      | None \<Rightarrow>
          (case RecvMsg inc of
             (Inl err, inc') \<Rightarrow> (Return (Some err), inc', s)
           | (Inr p, inc') \<Rightarrow>
               (case Type p of
                  PACKET_ERR \<Rightarrow>
                    (Return (Some (Errorf (''error from receiver: '' @ string_of (Data p)))),
                     inc', s)
                | PACKET_REQ \<Rightarrow>
                    (case queue (ID p) s of
                       (Some err, s') \<Rightarrow> (Return (Some err), inc', s')
                     | (None, s') \<Rightarrow> (Next, inc', s'))
                | PACKET_FIN \<Rightarrow>
                    (case conn_SendMsg (Packet0\<lparr>Type := PACKET_FIN\<rparr>) s of
                       (err, s') \<Rightarrow> (Return err, inc', s'))
                | _ \<Rightarrow> (Next, inc', s))))"



subsection \<open>\<open>run\<close> under a sequential schedule\<close>

text \<open>
  The workers receive every handle in the channel, in order, one iteration of a worker's
  loop per handle; \<open>g\<close> is the first error of the group so far. A worker that returns
  leaves the channel to the other workers of the pool of 64; once one has returned an
  error the context is cancelled, and every later iteration returns without sending.
\<close>

fun workers :: "error option \<Rightarrow> error option \<Rightarrow> sendHandle list \<Rightarrow> sender \<Rightarrow> error option \<times> sender" where
  "workers parent g [] s = (g, s)"
| "workers parent g (h # hs) s =
     (case worker_iter (ctx_Err parent g) h s of
        (Return r, s') \<Rightarrow> workers parent (errOnce g r) hs s'
      | (Next, s') \<Rightarrow> workers parent g hs s')"

text \<open>
  The receive loop and the workers, taking turns: after each iteration of the receive loop
  the workers empty the channel. When the receive loop returns, the channel is closed and
  the workers return once it is empty.
\<close>

function serve :: "error option \<Rightarrow> error option \<Rightarrow> incoming \<Rightarrow> sender \<Rightarrow> error option \<times> incoming \<times> sender" where
  "serve parent g inc s =
     (case recv_iter (ctx_Err parent g) inc s of
        (Return r, inc', s1) \<Rightarrow>
          (case workers parent (errOnce g r) (sendpipeline s1)
                  (s1\<lparr>sendpipeline := [], pipeline_closed := True\<rparr>) of
             (g', s2) \<Rightarrow> (g', inc', s2))
      | (Next, inc', s1) \<Rightarrow>
          (case workers parent g (sendpipeline s1) (s1\<lparr>sendpipeline := []\<rparr>) of
             (g', s2) \<Rightarrow> serve parent g' inc' s2))"
  by pat_completeness auto
termination
  by (relation "measure (\<lambda>(parent, g, inc, s). length inc)")
     (auto simp: recv_iter_def RecvMsg_def
           split: option.splits list.splits sum.splits PacketType.splits prod.splits)

declare serve.simps [simp del]

text \<open>
  \<open>sender.run\<close>, for the schedule in which the walk task runs to its end before the peer's
  first packet is received, and every transfer is served as soon as it is queued.
  \<open>parent\<close> is the error of the caller's context (\<open>None\<close> while it is not done); the result
  is that of \<open>g.Wait()\<close>, the first error of the group.
\<close>

definition run :: "error option \<Rightarrow> incoming \<Rightarrow> sender \<Rightarrow> error option \<times> incoming \<times> sender" where
  "run parent inc s =
     (case walk_task s of
        (r, s1) \<Rightarrow> serve parent (errOnce None r) inc s1)"

text \<open>\<open>DiffCopy\<close>: a fresh sender on the stream and the filesystem, and \<open>run\<close>.\<close>

definition DiffCopy :: "FS \<Rightarrow> Stream \<Rightarrow> error option \<Rightarrow> incoming \<Rightarrow> error option \<times> incoming \<times> sender" where
  "DiffCopy f ss parent inc =
     run parent inc
       \<lparr>conn = ss, fs = f, files = Map.empty, sendpipeline = [], pipeline_closed = False\<rparr>"

subsection \<open>Notions used in the statements\<close>

text \<open>The packets the sender builds for a content chunk and for an entry's metadata.\<close>

definition DataPacket :: "uint32 \<Rightarrow> byte list \<Rightarrow> Packet" where
  "DataPacket fid d = Packet0\<lparr>Type := PACKET_DATA, ID := fid, Data := d\<rparr>"

definition StatPacket :: "Stat \<Rightarrow> Packet" where
  "StatPacket st = Packet0\<lparr>Type := PACKET_STAT, Stat := Some st\<rparr>"

text \<open>
  The bytes of a file as its reader delivers them: everything up to the first error or
  end of file. A reader is readable when that first error, if any, is \<open>io.EOF\<close>.
\<close>

fun content :: "Reader \<Rightarrow> byte list" where
  "content [] = []"
| "content ((d, e) # r) = d @ (if e = None then content r else [])"

fun readable :: "Reader \<Rightarrow> bool" where
  "readable [] = True"
| "readable ((d, e) # r) = (case e of None \<Rightarrow> readable r | Some err \<Rightarrow> err = EOF)"

text \<open>A transport that accepts its next send, and one that accepts every send.\<close>

definition accepting :: "Stream \<Rightarrow> bool" where
  "accepting c = (case send_outcomes c of [] \<Rightarrow> True | r # rs \<Rightarrow> r = None)"

definition reliable :: "Stream \<Rightarrow> bool" where
  "reliable c = list_all (\<lambda>r. r = None) (send_outcomes c)"

text \<open>
  The metadata of a visited entry, when the callback gets as far as building its packet:
  no walk error, \<open>Info()\<close> succeeds and \<open>Sys()\<close> is a \<open>*types.Stat\<close>.
\<close>

definition visit_stat :: "visit \<Rightarrow> Stat option" where
  "visit_stat v =
     (case v_err v of
        Some err \<Rightarrow> None
      | None \<Rightarrow> (case v_info v of Inr (SysStat st) \<Rightarrow> Some st | _ \<Rightarrow> None))"

text \<open>The table update of the callback, and states that differ in the transport only.\<close>

definition record_file :: "uint32 \<Rightarrow> Stat \<Rightarrow> sender \<Rightarrow> sender" where
  "record_file i st s =
     (if fileCanRequestData (Mode st) then s\<lparr>files := (files s)(i \<mapsto> Path st)\<rparr> else s)"

definition only_conn :: "sender \<Rightarrow> sender \<Rightarrow> bool" where
  "only_conn s s' = (fs s' = fs s \<and> files s' = files s \<and> sendpipeline s' = sendpipeline s
       \<and> pipeline_closed s' = pipeline_closed s)"

text \<open>The other packets of the protocol, and the error of \<open>queue\<close>.\<close>

definition FinPacket :: Packet where
  "FinPacket = Packet0\<lparr>Type := PACKET_FIN\<rparr>"

definition ErrPacket :: "error \<Rightarrow> Packet" where
  "ErrPacket err = Packet0\<lparr>Type := PACKET_ERR, Data := bytes (Error err)\<rparr>"

definition ReqPacket :: "uint32 \<Rightarrow> Packet" where
  "ReqPacket fid = Packet0\<lparr>Type := PACKET_REQ, ID := fid\<rparr>"

definition invalid_file_id :: "uint32 \<Rightarrow> error" where
  "invalid_file_id fid = Errorf (''invalid file id '' @ decimal (unat fid))"



text \<open>The DATA packets with an empty payload for an identifier, among some packets.\<close>

definition empties :: "uint32 \<Rightarrow> Packet list \<Rightarrow> Packet list" where
  "empties fid ps = filter (\<lambda>p. Type p = PACKET_DATA \<and> ID p = fid \<and> Data p = []) ps"

text \<open>What the walk may change: the table and the transport, where it sends STAT packets.\<close>

definition walk_frame :: "sender \<Rightarrow> sender \<Rightarrow> bool" where
  "walk_frame s s' =
     (fs s' = fs s \<and> sendpipeline s' = sendpipeline s \<and> pipeline_closed s' = pipeline_closed s
      \<and> (reliable (conn s) \<longrightarrow> reliable (conn s'))
      \<and> (\<exists>new. sent (conn s') = sent (conn s) @ new \<and> (\<forall>p\<in>set new. Type p = PACKET_STAT)))"

subsection \<open>An example session\<close>

text \<open>
  A tree with the file \<open>a\<close> (five bytes, read in two pieces with an empty read between
  them), the directory \<open>b\<close> and the file \<open>b/c\<close>, which cannot be opened.
\<close>

definition ex_stat :: "string \<Rightarrow> uint32 \<Rightarrow> Stat" where
  "ex_stat p m = \<lparr>Path = p, Mode = m, Uid = 0, Gid = 0, Size = 0, ModTime = 0, Linkname = [],
                   Devmajor = 0, Devminor = 0, Xattrs = []\<rparr>"

definition ex_visit :: "string \<Rightarrow> uint32 \<Rightarrow> visit" where
  "ex_visit p m = \<lparr>v_path = p, v_info = Inr (SysStat (ex_stat p m)), v_err = None\<rparr>"

definition ex_reader :: Reader where
  "ex_reader = [([1, 2, 3], None), ([], None), ([4, 5], Some EOF)]"

definition ex_fs :: FS where
  "ex_fs = \<lparr>tree = [ex_visit ''a'' 420, ex_visit ''b'' 2147484141, ex_visit ''b/c'' 420],
            Open = (\<lambda>p. if p = ''a'' then Inr ex_reader else Inl (External ''open failed''))\<rparr>"

definition ex_stream :: Stream where
  "ex_stream = \<lparr>sent = [], send_outcomes = []\<rparr>"

definition ex_sender :: sender where
  "ex_sender = \<lparr>conn = ex_stream, fs = ex_fs, files = Map.empty,
                 sendpipeline = [], pipeline_closed = False\<rparr>"



definition bad_fs :: FS where
  "bad_fs = \<lparr>tree = [ex_visit ''a'' 420, \<lparr>v_path = ''x'', v_info = Inr SysOther, v_err = None\<rparr>],
             Open = (\<lambda>p. Inl (External ''open failed''))\<rparr>"

definition bad_sender :: sender where
  "bad_sender = \<lparr>conn = ex_stream, fs = bad_fs, files = Map.empty,
                 sendpipeline = [], pipeline_closed = False\<rparr>"

section \<open>Properties\<close>

subsection \<open>Sending packets\<close>

lemmas ex_defs = ex_sender_def ex_stream_def ex_fs_def ex_reader_def ex_visit_def ex_stat_def
lemmas send_defs = conn_SendMsg_def SendMsg_def Stream_SendMsg_def
lemmas mode_defs = fileCanRequestData_def ModeType_def ModeDir_def ModeSymlink_def
  ModeDevice_def ModeNamedPipe_def ModeSocket_def ModeCharDevice_def ModeIrregular_def

lemma conn_SendMsg_cases:
  "conn_SendMsg p s = (r, s') \<Longrightarrow>
     (r = None \<and> s' = s\<lparr>conn := (conn s)\<lparr>sent := sent (conn s) @ [p],
                               send_outcomes := tl (send_outcomes (conn s))\<rparr>\<rparr>)
   \<or> (r \<noteq> None \<and> s' = s\<lparr>conn := (conn s)\<lparr>send_outcomes := tl (send_outcomes (conn s))\<rparr>\<rparr>)"
  by (auto simp: send_defs split: list.splits option.splits)

lemma conn_SendMsg_reliable:
  "reliable (conn s) \<Longrightarrow>
     \<exists>s'. conn_SendMsg p s = (None, s') \<and> reliable (conn s')
        \<and> sent (conn s') = sent (conn s) @ [p]"
  by (auto simp: send_defs reliable_def split: list.splits option.splits)

lemma conn_SendMsg_only_conn: "conn_SendMsg p s = (r, s') \<Longrightarrow> only_conn s s'"
  by (auto simp: only_conn_def dest!: conn_SendMsg_cases)

lemma conn_SendMsg_files: "conn_SendMsg p s = (r, s') \<Longrightarrow> files s' = files s"
  by (auto dest!: conn_SendMsg_cases)

lemma conn_SendMsg_sent:
  "conn_SendMsg p s = (r, s') \<Longrightarrow>
     sent (conn s') = sent (conn s) @ (if r = None then [p] else [])"
  by (auto dest!: conn_SendMsg_cases)

lemma DataPacket_empty: "Packet0\<lparr>ID := fid, Type := PACKET_DATA\<rparr> = DataPacket fid []"
  by (simp add: DataPacket_def Packet0_def)

lemma Wrapf_None [simp]:
  "Wrapf err m = None \<longleftrightarrow> err = None"
  "None = Wrapf err m \<longleftrightarrow> err = None"
  by (auto simp: Wrapf_def split: option.splits)

subsection \<open>The content copy\<close>

lemma Read_content:
  "Read n src = ((d, er), src') \<Longrightarrow>
     content src = d @ (if er = None then content src' else [])"
  by (auto simp: Read_def split: list.splits if_splits)

lemma Read_readable:
  "Read n src = ((d, er), src') \<Longrightarrow> readable src \<Longrightarrow>
     (er = None \<and> readable src') \<or> er = Some EOF"
  by (auto simp: Read_def split: list.splits if_splits option.splits)

lemma Write_cases:
  "Write fid d s = ((nw, ew), s') \<Longrightarrow> d \<noteq> [] \<Longrightarrow>
     (ew = None \<and> nw = int (length d) \<and> conn_SendMsg (DataPacket fid d) s = (None, s'))
   \<or> (ew \<noteq> None \<and> nw = 0 \<and> conn_SendMsg (DataPacket fid d) s = (ew, s'))"
  by (auto simp: Write_def DataPacket_def Let_def split: prod.splits option.splits)

text \<open>
  Whatever its outcome, the copy appends one DATA packet per piece it wrote, none of them
  empty, and touches nothing but the transport; when it returns nil the pieces are the
  content of the source.
\<close>

lemma CopyBuffer_sent:
  "CopyBuffer fid src w s = ((n, r), s') \<Longrightarrow>
     \<exists>chunks. sent (conn s') = sent (conn s) @ map (DataPacket fid) chunks
        \<and> [] \<notin> set chunks \<and> only_conn s s'
        \<and> (r = None \<longrightarrow> concat chunks = content src)"
proof (induction fid src w s arbitrary: n r s' rule: CopyBuffer.induct)
  case (1 fid src written s)
  obtain d er src' where R: "Read bufsize src = ((d, er), src')"
    by (metis prod.exhaust)
  note C = Read_content [OF R]
  show ?case
  proof (cases "d = []")
    case True
    show ?thesis
    proof (cases er)
      case None
      with True R "1.prems" have "CopyBuffer fid src' written s = ((n, r), s')"
        by (simp add: CopyBuffer.simps [of fid src])
      with "1.IH"(2) [OF R [symmetric] refl, of n r s'] True None
      obtain chunks where "sent (conn s') = sent (conn s) @ map (DataPacket fid) chunks"
        "[] \<notin> set chunks" "only_conn s s'" "r = None \<longrightarrow> concat chunks = content src'"
        by auto
      with C True None show ?thesis by auto
    next
      case (Some e)
      with True R "1.prems" have "s' = s"
        by (simp add: CopyBuffer.simps [of fid src] split: if_splits)
      with C True Some show ?thesis
        by (auto simp: only_conn_def intro!: exI [of _ "[]"])
    qed
  next
    case False
    obtain nw ew s1 where W: "Write fid d s = ((nw, ew), s1)"
      by (metis prod.exhaust)
    from Write_cases [OF W False] show ?thesis
    proof
      assume A: "ew = None \<and> nw = int (length d)
                 \<and> conn_SendMsg (DataPacket fid d) s = (None, s1)"
      then have S1: "sent (conn s1) = sent (conn s) @ [DataPacket fid d]"
        and O1: "only_conn s s1"
        by (auto dest: conn_SendMsg_sent conn_SendMsg_only_conn)
      show ?thesis
      proof (cases er)
        case None
        with False R W A "1.prems"
        have "CopyBuffer fid src' (written + int (length d)) s1 = ((n, r), s')"
          by (simp add: CopyBuffer.simps [of fid src])
        with "1.IH"(1) [OF R [symmetric] refl _ W [symmetric] refl refl refl refl refl,
                        of n r s']
          False None A
        obtain chunks where "sent (conn s') = sent (conn s1) @ map (DataPacket fid) chunks"
          "[] \<notin> set chunks" "only_conn s1 s'" "r = None \<longrightarrow> concat chunks = content src'"
          by auto
        with S1 O1 C None False show ?thesis
          by (auto simp: only_conn_def intro!: exI [of _ "d # chunks"])
      next
        case (Some e)
        with False R W A "1.prems" have "s' = s1" "r = None \<longrightarrow> e = EOF"
          by (auto simp add: CopyBuffer.simps [of fid src] split: if_splits)
        with S1 O1 C Some False show ?thesis
          by (auto simp: only_conn_def intro!: exI [of _ "[d]"])
      qed
    next
      assume A: "ew \<noteq> None \<and> nw = 0 \<and> conn_SendMsg (DataPacket fid d) s = (ew, s1)"
      then have S1: "sent (conn s1) = sent (conn s)" and O1: "only_conn s s1"
        by (auto dest: conn_SendMsg_sent conn_SendMsg_only_conn)
      from False R W A "1.prems" have "s' = s1" "r \<noteq> None"
        by (auto simp add: CopyBuffer.simps [of fid src] split: if_splits)
      with S1 O1 show ?thesis by (auto intro!: exI [of _ "[]"])
    qed
  qed
qed

text \<open>On a transport that accepts every send, the copy of a readable source returns nil.\<close>

lemma CopyBuffer_reliable:
  "readable src \<Longrightarrow> reliable (conn s) \<Longrightarrow>
     \<exists>n s'. CopyBuffer fid src w s = ((n, None), s') \<and> reliable (conn s')"
proof (induction fid src w s rule: CopyBuffer.induct)
  case (1 fid src written s)
  obtain d er src' where R: "Read bufsize src = ((d, er), src')"
    by (metis prod.exhaust)
  from Read_readable [OF R "1.prems"(1)]
  have E: "(er = None \<and> readable src') \<or> er = Some EOF" .
  show ?case
  proof (cases "d = []")
    case True
    with "1.IH"(2) [OF R [symmetric] refl] R E "1.prems"(2) show ?thesis
      by (auto simp: CopyBuffer.simps [of fid src])
  next
    case False
    from conn_SendMsg_reliable [OF "1.prems"(2), of "DataPacket fid d"]
    obtain s1 where S: "conn_SendMsg (DataPacket fid d) s = (None, s1)" "reliable (conn s1)"
      by auto
    with False have W: "Write fid d s = ((int (length d), None), s1)"
      by (simp add: Write_def DataPacket_def)
    with "1.IH"(1) [OF R [symmetric] refl _ W [symmetric] refl refl refl refl refl]
      R E S(2) False
    show ?thesis
      by (auto simp: CopyBuffer.simps [of fid src])
  qed
qed

lemma ex_sendFile_a:
  "sendFile \<lparr>h_id = 0, h_path = ''a''\<rparr> ex_sender =
     (None, ex_sender\<lparr>conn := \<lparr>sent = [DataPacket 0 [1, 2, 3], DataPacket 0 [4, 5],
                                        DataPacket 0 []],
                               send_outcomes = []\<rparr>\<rparr>)"
  by (simp add: ex_defs sendFile_def CopyBuffer.simps Read_def bufsize_def Write_def send_defs
        DataPacket_def Packet0_def)

text \<open>
  Claim C1. When a requested file opens and its reader reports no error but end of file,
  and the transfer goes through (\<open>sendFile\<close> returns nil, which it does on a transport that
  accepts every send), the packets \<open>sendFile\<close> has sent are DATA packets for the handle's
  identifier whose payloads, none of them empty, concatenate to the bytes of the file,
  followed by the DATA packet with the empty payload. This holds for every reader, so for
  every way of cutting the file into reads.
\<close>

theorem sendFile_roundtrip:
  assumes "Open (fs s) (h_path h) = Inr f" and "readable f"
  shows "(reliable (conn s) \<longrightarrow> fst (sendFile h s) = None)
       \<and> (\<forall>s'. sendFile h s = (None, s') \<longrightarrow>
            (\<exists>chunks. sent (conn s') =
                 sent (conn s) @ map (DataPacket (h_id h)) chunks @ [DataPacket (h_id h) []]
               \<and> [] \<notin> set chunks \<and> concat chunks = content f))"
proof (intro conjI allI impI)
  assume "reliable (conn s)"
  from CopyBuffer_reliable [OF assms(2) this, of "h_id h" 0]
  obtain n s1 where C: "CopyBuffer (h_id h) f 0 s = ((n, None), s1)" "reliable (conn s1)"
    by auto
  from conn_SendMsg_reliable [OF C(2), of "DataPacket (h_id h) []"] C(1) assms(1)
  show "fst (sendFile h s) = None"
    by (auto simp: sendFile_def DataPacket_empty)
next
  fix s' assume S: "sendFile h s = (None, s')"
  obtain n r s1 where C: "CopyBuffer (h_id h) f 0 s = ((n, r), s1)"
    by (metis prod.exhaust)
  with S assms(1) have r: "r = None"
    and M: "conn_SendMsg (DataPacket (h_id h) []) s1 = (None, s')"
    by (auto simp: sendFile_def DataPacket_empty split: option.splits)
  from CopyBuffer_sent [OF C] r obtain chunks where
    "sent (conn s1) = sent (conn s) @ map (DataPacket (h_id h)) chunks" "[] \<notin> set chunks"
    "concat chunks = content f"
    by auto
  with conn_SendMsg_sent [OF M]
  show "\<exists>chunks. sent (conn s') =
                 sent (conn s) @ map (DataPacket (h_id h)) chunks @ [DataPacket (h_id h) []]
               \<and> [] \<notin> set chunks \<and> concat chunks = content f"
    by auto
qed

theorem sendFile_roundtrip_witness:
  "Open (fs ex_sender) ''a'' = Inr ex_reader \<and> readable ex_reader
   \<and> reliable (conn ex_sender)
   \<and> fst (sendFile \<lparr>h_id = 0, h_path = ''a''\<rparr> ex_sender) = None
   \<and> content ex_reader = [1, 2, 3, 4, 5]
   \<and> sent (conn (snd (sendFile \<lparr>h_id = 0, h_path = ''a''\<rparr> ex_sender)))
       = map (DataPacket 0) [[1, 2, 3], [4, 5]] @ [DataPacket 0 []]"
proof -
  have 1: "Open (fs ex_sender) (h_path \<lparr>h_id = 0, h_path = ''a''\<rparr>) = Inr ex_reader"
    by (simp add: ex_sender_def ex_fs_def)
  have 2: "readable ex_reader" by (simp add: ex_reader_def)
  have 3: "reliable (conn ex_sender)" by (simp add: reliable_def ex_sender_def ex_stream_def)
  from sendFile_roundtrip [OF 1 2] 3
  have 4: "fst (sendFile \<lparr>h_id = 0, h_path = ''a''\<rparr> ex_sender) = None" by blast
  have 5: "content ex_reader = [1, 2, 3, 4, 5]" by (simp add: ex_reader_def)
  show ?thesis using 1 2 3 4 5 by (simp add: ex_sendFile_a)
qed

text \<open>
  Claim C4. When the open of a requested file fails, \<open>sendFile\<close> does one thing: it sends
  the DATA packet with the handle's identifier and the empty payload, and returns the
  result of that send. On a transport that accepts the send, exactly that packet is added
  to what was sent and \<open>sendFile\<close> returns nil.
\<close>

theorem sendFile_open_fails:
  assumes "Open (fs s) (h_path h) = Inl e"
  shows "sendFile h s = conn_SendMsg (DataPacket (h_id h) []) s
       \<and> (accepting (conn s) \<longrightarrow>
            (\<exists>s'. sendFile h s = (None, s')
               \<and> sent (conn s') = sent (conn s) @ [DataPacket (h_id h) []]))"
  using assms
  by (auto simp: sendFile_def DataPacket_empty accepting_def send_defs
        split: list.splits option.splits)

theorem sendFile_open_fails_witness:
  "Open (fs ex_sender) ''b/c'' = Inl (External ''open failed'')
   \<and> accepting (conn ex_sender)
   \<and> sendFile \<lparr>h_id = 2, h_path = ''b/c''\<rparr> ex_sender =
       (None, ex_sender\<lparr>conn := \<lparr>sent = [DataPacket 2 []], send_outcomes = []\<rparr>\<rparr>)"
proof -
  have 1: "Open (fs ex_sender) (h_path \<lparr>h_id = 2, h_path = ''b/c''\<rparr>)
             = Inl (External ''open failed'')"
    by (simp add: ex_sender_def ex_fs_def)
  have 2: "accepting (conn ex_sender)"
    by (simp add: accepting_def ex_sender_def ex_stream_def)
  from sendFile_open_fails [OF 1]
  have "sendFile \<lparr>h_id = 2, h_path = ''b/c''\<rparr> ex_sender
          = conn_SendMsg (DataPacket 2 []) ex_sender"
    by simp
  with 1 2 show ?thesis
    by (simp add: send_defs ex_sender_def ex_stream_def)
qed

subsection \<open>The walk\<close>

lemma walkFn_Some:
  "visit_stat v = Some st \<Longrightarrow>
     walkFn v (i, s) =
       (case conn_SendMsg (StatPacket st) (record_file i st s) of
          (err, s2) \<Rightarrow> (Wrapf err (''failed to send stat '' @ v_path v), (i + 1, s2)))"
  by (auto simp: walkFn_def visit_stat_def StatPacket_def record_file_def Let_def
           split: option.splits sum.splits Sys.splits)

lemma walkFn_None:
  "visit_stat v = None \<Longrightarrow> \<exists>e. walkFn v (i, s) = (Some e, (i, s))"
  by (auto simp: walkFn_def visit_stat_def split: option.splits sum.splits Sys.splits)

lemma walkFn_ok:
  assumes "walkFn v (i, s) = (None, (i', s'))"
  shows "\<exists>st. visit_stat v = Some st \<and> i' = i + 1
           \<and> conn_SendMsg (StatPacket st) (record_file i st s) = (None, s')"
proof (cases "visit_stat v")
  case None
  from walkFn_None [OF this, of i s] assms show ?thesis by auto
next
  case (Some st)
  from walkFn_Some [OF this, of i s] assms show ?thesis
    using Some by (auto split: prod.splits)
qed

text \<open>A walk without error has sent the packet of every entry, in order.\<close>

lemma Walk_ok:
  "Walk vs walkFn (i, s) = (None, (i', s')) \<Longrightarrow>
     \<exists>stats. map visit_stat vs = map Some stats \<and> i' = i + of_nat (length vs)
        \<and> sent (conn s') = sent (conn s) @ map StatPacket stats
        \<and> fs s' = fs s \<and> sendpipeline s' = sendpipeline s
        \<and> pipeline_closed s' = pipeline_closed s"
proof (induction vs arbitrary: i s)
  case Nil
  then show ?case by simp
next
  case (Cons v vs)
  from Cons.prems obtain i1 s1 where
    1: "walkFn v (i, s) = (None, (i1, s1))" and 2: "Walk vs walkFn (i1, s1) = (None, (i', s'))"
    by (auto split: prod.splits option.splits)
  from walkFn_ok [OF 1] obtain st where
    st: "visit_stat v = Some st" "i1 = i + 1"
        "conn_SendMsg (StatPacket st) (record_file i st s) = (None, s1)"
    by auto
  from conn_SendMsg_sent [OF st(3)] conn_SendMsg_only_conn [OF st(3)]
  have s1: "sent (conn s1) = sent (conn s) @ [StatPacket st]" "fs s1 = fs s"
    "sendpipeline s1 = sendpipeline s" "pipeline_closed s1 = pipeline_closed s"
    by (auto simp: only_conn_def record_file_def)
  from Cons.IH [OF 2] obtain stats where
    "map visit_stat vs = map Some stats" "i' = i1 + of_nat (length vs)"
    "sent (conn s') = sent (conn s1) @ map StatPacket stats"
    "fs s' = fs s1" "sendpipeline s' = sendpipeline s1" "pipeline_closed s' = pipeline_closed s1"
    by auto
  with st s1 show ?case
    by (intro exI [of _ "st # stats"]) simp
qed

lemma Walk_reliable:
  "reliable (conn s) \<Longrightarrow> list_all (\<lambda>v. visit_stat v \<noteq> None) vs \<Longrightarrow>
     \<exists>i' s'. Walk vs walkFn (i, s) = (None, (i', s')) \<and> reliable (conn s')"
proof (induction vs arbitrary: i s)
  case Nil
  then show ?case by simp
next
  case (Cons v vs)
  then obtain st where st: "visit_stat v = Some st" by auto
  have "reliable (conn (record_file i st s))"
    using Cons.prems(1) by (simp add: record_file_def)
  from conn_SendMsg_reliable [OF this, of "StatPacket st"] obtain s1 where
    s1: "conn_SendMsg (StatPacket st) (record_file i st s) = (None, s1)" "reliable (conn s1)"
    by auto
  with walkFn_Some [OF st, of i s] have "walkFn v (i, s) = (None, (i + 1, s1))"
    by simp
  with Cons.IH [OF s1(2), of "i + 1"] Cons.prems(2) show ?case
    by auto
qed

lemma unat_pred_index:
  fixes x :: uint32
  shows "unat (x - 1) = (if x = 0 then 2 ^ 32 - 1 else unat x - 1)"
  by (auto simp: unat_minus_one unsigned_minus_1_eq_mask mask_eq_exp_minus_1)

text \<open>
  The table after a walk without error over at most \<open>2 ^ 32\<close> entries, started with the
  counter at \<open>i\<close>: the key \<open>fid\<close> belongs to the entry at position \<open>fid - i\<close>.
\<close>

lemma Walk_files:
  "Walk vs walkFn (i, s) = (None, (i', s')) \<Longrightarrow> length vs \<le> 2 ^ 32 \<Longrightarrow>
     files s' fid =
       (if unat (fid - i) < length vs
        then (case visit_stat (vs ! unat (fid - i)) of
                Some st \<Rightarrow> if fileCanRequestData (Mode st) then Some (Path st) else files s fid
              | None \<Rightarrow> files s fid)
        else files s fid)"
proof (induction vs arbitrary: i s)
  case Nil
  then show ?case by simp
next
  case (Cons v vs)
  from Cons.prems obtain i1 s1 where
    1: "walkFn v (i, s) = (None, (i1, s1))" and 2: "Walk vs walkFn (i1, s1) = (None, (i', s'))"
    by (auto split: prod.splits option.splits)
  from walkFn_ok [OF 1] obtain st where
    st: "visit_stat v = Some st" "i1 = i + 1"
        "conn_SendMsg (StatPacket st) (record_file i st s) = (None, s1)"
    by auto
  have f1: "files s1 = files (record_file i st s)"
    using conn_SendMsg_files [OF st(3)] .
  have len: "length vs \<le> 2 ^ 32" "length vs < 2 ^ 32" using Cons.prems(2) by auto
  have idx: "unat (fid - i1) = (if fid = i then 2 ^ 32 - 1 else unat (fid - i) - 1)"
    using unat_pred_index [of "fid - i"] st(2) by (simp add: diff_diff_eq)
  note IH = Cons.IH [OF 2 len(1)]
  show ?case
  proof (cases "fid = i")
    case True
    with IH idx len(2) have "files s' fid = files s1 fid" by simp
    with f1 True st(1) show ?thesis by (simp add: record_file_def)
  next
    case False
    then have pos: "0 < unat (fid - i)" by (simp add: unat_gt_0)
    from False f1 have "files s1 fid = files s fid" by (simp add: record_file_def)
    with IH idx False pos show ?thesis
      by (auto simp: nth_Cons' split: option.splits)
  qed
qed

lemma Walk_append:
  "Walk (xs @ ys) fn a =
     (case Walk xs fn a of
        (Some e, a') \<Rightarrow> (Some e, a')
      | (None, a') \<Rightarrow> Walk ys fn a')"
  by (induction xs arbitrary: a) (auto split: prod.splits option.splits)

text \<open>In a walk without error, the counter is \<open>i + k\<close> after the first \<open>k\<close> entries.\<close>

lemma Walk_prefix_counter:
  assumes "Walk vs walkFn (i, s) = (None, (i', s'))" and "k \<le> length vs"
  shows "\<exists>sk. Walk (take k vs) walkFn (i, s) = (None, (i + of_nat k, sk))"
proof -
  obtain r ik sk where P: "Walk (take k vs) walkFn (i, s) = (r, (ik, sk))"
    by (metis prod.exhaust)
  from Walk_append [of "take k vs" "drop k vs" walkFn "(i, s)"] assms(1) P
  have "r = None" by (auto split: option.splits)
  with Walk_ok [of "take k vs" i s ik sk] P assms(2) show ?thesis
    by (auto simp: min_def)
qed

text \<open>
  Whatever its outcome, a walk has sent the STAT packets of the first entries of the tree,
  in order, each built when the counter was at the position of its entry.
\<close>

lemma Walk_sent_prefix:
  "Walk vs walkFn (i, s) = (r, (i', s')) \<Longrightarrow>
     \<exists>stats. sent (conn s') = sent (conn s) @ map StatPacket stats
        \<and> length stats \<le> length vs \<and> (r = None \<longrightarrow> length stats = length vs)
        \<and> (\<forall>k<length stats. visit_stat (vs ! k) = Some (stats ! k)
              \<and> (\<exists>sk. Walk (take k vs) walkFn (i, s) = (None, (i + of_nat k, sk))))"
proof (induction vs arbitrary: i s)
  case Nil
  then show ?case by simp
next
  case (Cons v vs)
  obtain r1 i1 s1 where 1: "walkFn v (i, s) = (r1, (i1, s1))"
    by (metis prod.exhaust)
  show ?case
  proof (cases r1)
    case (Some e)
    with Cons.prems 1 have "r = Some e" "s' = s1" by simp_all
    moreover have "sent (conn s1) = sent (conn s)"
    proof (cases "visit_stat v")
      case None
      from walkFn_None [OF this, of i s] 1 show ?thesis by simp
    next
      case (Some st)
      from walkFn_Some [OF this, of i s] 1 \<open>r1 = Some e\<close> obtain err where
        "conn_SendMsg (StatPacket st) (record_file i st s) = (Some err, s1)"
        by (auto simp: Wrapf_def split: prod.splits option.splits)
      from conn_SendMsg_sent [OF this] show ?thesis by (simp add: record_file_def)
    qed
    ultimately show ?thesis by (intro exI [of _ "[]"]) simp
  next
    case None
    with Cons.prems 1 have 2: "Walk vs walkFn (i1, s1) = (r, (i', s'))" by simp
    from walkFn_ok [OF 1 [unfolded None]] obtain st where
      st: "visit_stat v = Some st" "i1 = i + 1"
          "conn_SendMsg (StatPacket st) (record_file i st s) = (None, s1)"
      by auto
    from conn_SendMsg_sent [OF st(3)]
    have s1: "sent (conn s1) = sent (conn s) @ [StatPacket st]"
      by (simp add: record_file_def)
    from Cons.IH [OF 2] obtain stats where
      IH: "sent (conn s') = sent (conn s1) @ map StatPacket stats"
        "length stats \<le> length vs" "r = None \<longrightarrow> length stats = length vs"
        "\<forall>k<length stats. visit_stat (vs ! k) = Some (stats ! k)
              \<and> (\<exists>sk. Walk (take k vs) walkFn (i1, s1) = (None, (i1 + of_nat k, sk)))"
      by blast
    have "visit_stat ((v # vs) ! k) = Some ((st # stats) ! k)
              \<and> (\<exists>sk. Walk (take k (v # vs)) walkFn (i, s) = (None, (i + of_nat k, sk)))"
      if k: "k < length (st # stats)" for k
    proof (cases k)
      case 0
      with st(1) show ?thesis by simp
    next
      case (Suc j)
      with k IH(4) have "visit_stat (vs ! j) = Some (stats ! j)"
        "\<exists>sk. Walk (take j vs) walkFn (i1, s1) = (None, (i1 + of_nat j, sk))"
        by auto
      with Suc 1 None st(2) show ?thesis by (simp add: add.assoc)
    qed
    with IH(1,2,3) s1 show ?thesis
      by (intro exI [of _ "st # stats"]) simp
  qed
qed

lemma and_or_zero:
  fixes m :: uint32
  shows "(m AND (a OR b) = 0) = (m AND a = 0 \<and> m AND b = 0)"
  by (auto simp: bit_eq_iff [where ?'a = "32 word"] bit_and_iff bit_or_iff)

lemma and_push_bit_zero:
  fixes m :: uint32
  shows "(m AND push_bit k 1 = 0) = (\<not> bit m k)"
proof -
  have "bit m k \<Longrightarrow> k < 32"
    using bit_imp_le_length [of m k] by simp
  then show ?thesis
    by (auto simp: bit_eq_iff [where ?'a = "32 word"] bit_and_iff bit_exp_iff)
qed

lemma ex_walk:
  "walk ex_sender =
     (None, ex_sender\<lparr>conn := \<lparr>sent = [StatPacket (ex_stat ''a'' 420),
                                        StatPacket (ex_stat ''b'' 2147484141),
                                        StatPacket (ex_stat ''b/c'' 420),
                                        Packet0\<lparr>Type := PACKET_STAT\<rparr>],
                                send_outcomes = []\<rparr>,
                      files := [0 \<mapsto> ''a'', 2 \<mapsto> ''b/c'']\<rparr>)"
  by (simp add: walk_def walkFn_def Wrapf_def ex_defs send_defs mode_defs StatPacket_def
        Packet0_def)

text \<open>
  Claim C6. A walk that returns nil has sent one STAT packet with the metadata of each
  entry of the tree, in the order of the walker, and after them one STAT packet without
  metadata. On a transport that accepts every send, a walk over entries that all have
  their metadata returns nil.
\<close>

theorem walk_sends_stats:
  "(reliable (conn s) \<and> list_all (\<lambda>v. visit_stat v \<noteq> None) (tree (fs s))
       \<longrightarrow> fst (walk s) = None)
   \<and> (\<forall>s'. walk s = (None, s') \<longrightarrow>
        (\<exists>stats. map visit_stat (tree (fs s)) = map Some stats
           \<and> sent (conn s') =
               sent (conn s) @ map StatPacket stats @ [Packet0\<lparr>Type := PACKET_STAT\<rparr>]))"
proof (intro conjI allI impI)
  assume A: "reliable (conn s) \<and> list_all (\<lambda>v. visit_stat v \<noteq> None) (tree (fs s))"
  from Walk_reliable [of s "tree (fs s)" 0] A obtain i' s1 where
    W: "Walk (tree (fs s)) walkFn (0, s) = (None, (i', s1))" "reliable (conn s1)"
    by auto
  from conn_SendMsg_reliable [OF W(2), of "Packet0\<lparr>Type := PACKET_STAT\<rparr>"] W(1)
  show "fst (walk s) = None"
    by (auto simp: walk_def)
next
  fix s' assume S: "walk s = (None, s')"
  then obtain i' s1 where
    W: "Walk (tree (fs s)) walkFn (0, s) = (None, (i', s1))"
    and M: "conn_SendMsg (Packet0\<lparr>Type := PACKET_STAT\<rparr>) s1 = (None, s')"
    by (auto simp: walk_def split: prod.splits option.splits)
  from Walk_ok [OF W] conn_SendMsg_sent [OF M]
  show "\<exists>stats. map visit_stat (tree (fs s)) = map Some stats
           \<and> sent (conn s') =
               sent (conn s) @ map StatPacket stats @ [Packet0\<lparr>Type := PACKET_STAT\<rparr>]"
    by auto
qed

theorem walk_sends_stats_witness:
  "reliable (conn ex_sender) \<and> list_all (\<lambda>v. visit_stat v \<noteq> None) (tree (fs ex_sender))
   \<and> fst (walk ex_sender) = None
   \<and> map visit_stat (tree (fs ex_sender))
       = map Some [ex_stat ''a'' 420, ex_stat ''b'' 2147484141, ex_stat ''b/c'' 420]
   \<and> sent (conn (snd (walk ex_sender)))
       = map StatPacket [ex_stat ''a'' 420, ex_stat ''b'' 2147484141, ex_stat ''b/c'' 420]
         @ [Packet0\<lparr>Type := PACKET_STAT\<rparr>]"
proof -
  have 1: "reliable (conn ex_sender) \<and> list_all (\<lambda>v. visit_stat v \<noteq> None) (tree (fs ex_sender))"
    by (simp add: reliable_def visit_stat_def ex_defs)
  with walk_sends_stats [of ex_sender] have 2: "fst (walk ex_sender) = None"
    by blast
  have 3: "map visit_stat (tree (fs ex_sender))
       = map Some [ex_stat ''a'' 420, ex_stat ''b'' 2147484141, ex_stat ''b/c'' 420]"
    by (simp add: visit_stat_def ex_sender_def ex_fs_def ex_visit_def)
  from 1 2 3 show ?thesis by (simp add: ex_walk)
qed

text \<open>
  Claim C7. The callback of the walk, for an entry with its metadata and the counter at
  \<open>i\<close>, leaves the counter at \<open>i + 1\<close> whatever the mode, and writes \<open>i \<mapsto> path\<close> into
  the table exactly when \<open>fileCanRequestData\<close> holds of the mode, which is when none of
  the type bits of \<open>os.ModeType\<close> is set. The walk starts the counter at zero: in a walk
  that returns nil the counter is \<open>k\<close> (as a \<open>uint32\<close>) when the callback is called for the
  entry at position \<open>k\<close>, after the \<open>k\<close> entries before it. So after such a walk over at
  most \<open>2 ^ 32\<close> entries, the key \<open>k\<close> holds the path of the entry at position \<open>k\<close> if that
  entry is a regular file, and is as it was before otherwise; no other key has changed.
\<close>

theorem walk_assigns_identifiers:
  "(\<forall>st. visit_stat v = Some st \<longrightarrow>
       (\<exists>r s1'. walkFn v (i, s1) = (r, (i + 1, s1'))
          \<and> files s1' =
               (if fileCanRequestData (Mode st) then (files s1)(i \<mapsto> Path st) else files s1)))
   \<and> (walk s = (None, s') \<longrightarrow>
        (\<forall>k\<le>length (tree (fs s)).
            \<exists>sk. Walk (take k (tree (fs s))) walkFn (0, s) = (None, (of_nat k, sk))))
   \<and> (walk s = (None, s') \<and> length (tree (fs s)) \<le> 2 ^ 32 \<longrightarrow>
        (\<forall>k<length (tree (fs s)).
            \<exists>st. visit_stat (tree (fs s) ! k) = Some st
               \<and> files s' (of_nat k) =
                    (if fileCanRequestData (Mode st) then Some (Path st) else files s (of_nat k)))
      \<and> (\<forall>fid. length (tree (fs s)) \<le> unat fid \<longrightarrow> files s' fid = files s fid))
   \<and> (fileCanRequestData m \<longleftrightarrow>
        (\<not> bit m 31 \<and> \<not> bit m 27 \<and> \<not> bit m 26 \<and> \<not> bit m 25 \<and> \<not> bit m 24
         \<and> \<not> bit m 21 \<and> \<not> bit m 19))"
proof (intro conjI impI)
  show "\<forall>st. visit_stat v = Some st \<longrightarrow>
       (\<exists>r s1'. walkFn v (i, s1) = (r, (i + 1, s1'))
          \<and> files s1' =
               (if fileCanRequestData (Mode st) then (files s1)(i \<mapsto> Path st) else files s1))"
  proof (intro allI impI)
    fix st assume st: "visit_stat v = Some st"
    obtain err s2 where M: "conn_SendMsg (StatPacket st) (record_file i st s1) = (err, s2)"
      by (metis prod.exhaust)
    with walkFn_Some [OF st, of i s1] conn_SendMsg_files [OF M]
    show "\<exists>r s1'. walkFn v (i, s1) = (r, (i + 1, s1'))
          \<and> files s1' =
               (if fileCanRequestData (Mode st) then (files s1)(i \<mapsto> Path st) else files s1)"
      by (auto simp: record_file_def)
  qed
next
  assume "walk s = (None, s')"
  then obtain i' s1 where
    W: "Walk (tree (fs s)) walkFn (0, s) = (None, (i', s1))"
    by (auto simp: walk_def split: prod.splits option.splits)
  show "\<forall>k\<le>length (tree (fs s)).
            \<exists>sk. Walk (take k (tree (fs s))) walkFn (0, s) = (None, (of_nat k, sk))"
    using Walk_prefix_counter [OF W] by simp
next
  assume A: "walk s = (None, s') \<and> length (tree (fs s)) \<le> 2 ^ 32"
  then obtain i' s1 where
    W: "Walk (tree (fs s)) walkFn (0, s) = (None, (i', s1))"
    and M: "conn_SendMsg (Packet0\<lparr>Type := PACKET_STAT\<rparr>) s1 = (None, s')"
    by (auto simp: walk_def split: prod.splits option.splits)
  from A have len: "length (tree (fs s)) \<le> 2 ^ 32" by simp
  have F: "files s' = files s1" using conn_SendMsg_files [OF M] .
  from Walk_ok [OF W] obtain stats where
    stats: "map visit_stat (tree (fs s)) = map Some stats" by auto
  show "\<forall>k<length (tree (fs s)).
            \<exists>st. visit_stat (tree (fs s) ! k) = Some st
               \<and> files s' (of_nat k) =
                    (if fileCanRequestData (Mode st) then Some (Path st) else files s (of_nat k))"
  proof (intro allI impI)
    fix k assume k: "k < length (tree (fs s))"
    with len have u: "unat (of_nat k :: uint32) = k"
      by (intro of_nat_inverse [OF refl]) simp
    from stats k have "visit_stat (tree (fs s) ! k) = Some (stats ! k)"
      by (metis length_map nth_map)
    with Walk_files [OF W len, of "of_nat k"] u k F
    show "\<exists>st. visit_stat (tree (fs s) ! k) = Some st
               \<and> files s' (of_nat k) =
                    (if fileCanRequestData (Mode st) then Some (Path st) else files s (of_nat k))"
      by simp
  qed
  show "\<forall>fid. length (tree (fs s)) \<le> unat fid \<longrightarrow> files s' fid = files s fid"
    using Walk_files [OF W len] F by simp
next
  show "fileCanRequestData m \<longleftrightarrow>
        (\<not> bit m 31 \<and> \<not> bit m 27 \<and> \<not> bit m 26 \<and> \<not> bit m 25 \<and> \<not> bit m 24
         \<and> \<not> bit m 21 \<and> \<not> bit m 19)"
    unfolding mode_defs and_or_zero and_push_bit_zero by blast
qed

theorem walk_assigns_identifiers_witness:
  "walk ex_sender = (None, snd (walk ex_sender))
   \<and> length (tree (fs ex_sender)) \<le> 2 ^ 32
   \<and> visit_stat (tree (fs ex_sender) ! 1) = Some (ex_stat ''b'' 2147484141)
   \<and> \<not> fileCanRequestData (Mode (ex_stat ''b'' 2147484141))
   \<and> files (snd (walk ex_sender)) 0 = Some ''a''
   \<and> files (snd (walk ex_sender)) 1 = None
   \<and> files (snd (walk ex_sender)) 2 = Some ''b/c''
   \<and> files (snd (walk ex_sender)) 3 = None"
proof -
  have 1: "walk ex_sender = (None, snd (walk ex_sender))
           \<and> length (tree (fs ex_sender)) \<le> 2 ^ 32"
    by (simp add: ex_walk) (simp add: ex_sender_def ex_fs_def)
  have 2: "visit_stat (tree (fs ex_sender) ! 1) = Some (ex_stat ''b'' 2147484141)"
    by (simp add: visit_stat_def ex_sender_def ex_fs_def ex_visit_def)
  have 3: "\<not> fileCanRequestData (Mode (ex_stat ''b'' 2147484141))"
    by (simp add: ex_stat_def mode_defs)
  from walk_assigns_identifiers [of _ _ _ ex_sender "snd (walk ex_sender)"] 1
  have "\<forall>k<length (tree (fs ex_sender)).
            \<exists>st. visit_stat (tree (fs ex_sender) ! k) = Some st
               \<and> files (snd (walk ex_sender)) (of_nat k) =
                    (if fileCanRequestData (Mode st) then Some (Path st)
                     else files ex_sender (of_nat k))"
    by blast
  moreover have "(1::nat) < length (tree (fs ex_sender))"
    by (simp add: ex_sender_def ex_fs_def)
  ultimately have "\<exists>st. visit_stat (tree (fs ex_sender) ! 1) = Some st
               \<and> files (snd (walk ex_sender)) (of_nat 1) =
                    (if fileCanRequestData (Mode st) then Some (Path st)
                     else files ex_sender (of_nat 1))"
    by blast
  with 2 3 have 4: "files (snd (walk ex_sender)) 1 = None"
    by (auto simp: ex_sender_def)
  from 1 2 3 4 show ?thesis by (simp add: ex_walk)
qed

text \<open>
  Claim C2, as stated, fails: the callback builds the STAT packet from the type and the
  metadata only, so its \<open>ID\<close> field is zero for every entry. In the example the entry
  \<open>b/c\<close> is the third of the walk and has the identifier 2 (the table holds \<open>2 \<mapsto> b/c\<close>),
  while the packet that carries its metadata has \<open>ID = 0\<close>.
\<close>

theorem stat_packet_id_counterexample:
  "sent (conn (snd (walk ex_sender))) ! 2 = StatPacket (ex_stat ''b/c'' 420)
   \<and> files (snd (walk ex_sender)) 2 = Some (Path (ex_stat ''b/c'' 420))
   \<and> ID (sent (conn (snd (walk ex_sender))) ! 2) = 0
   \<and> ID (sent (conn (snd (walk ex_sender))) ! 2) \<noteq> 2"
  by (simp add: ex_walk StatPacket_def Packet0_def ex_stat_def)

text \<open>
  Claim C2, amended. Whatever the outcome of the walk, the packets it has sent are STAT
  packets for the first entries of the tree, in order (for all of them, and then the STAT
  packet without metadata, when it returns nil). The packet for the entry at position \<open>k\<close>
  carries the metadata of that entry and has the \<open>ID\<close> field zero. The identifier of the
  entry is not in the packet: it is the value \<open>k\<close> that the counter has when the callback
  is called for the entry, that is, the position of the packet among those of the walk.
\<close>

theorem stat_packets_leave_id_unset:
  assumes "walk s = (r, s')"
  shows "\<exists>stats. sent (conn s') =
             sent (conn s) @ map StatPacket stats
               @ (if r = None then [Packet0\<lparr>Type := PACKET_STAT\<rparr>] else [])
           \<and> length stats \<le> length (tree (fs s))
           \<and> (r = None \<longrightarrow> length stats = length (tree (fs s)))
           \<and> (\<forall>k<length stats.
                 visit_stat (tree (fs s) ! k) = Some (stats ! k)
                 \<and> StatPacket (stats ! k)
                     = \<lparr>Type = PACKET_STAT, Stat = Some (stats ! k), ID = 0, Data = []\<rparr>
                 \<and> (\<exists>sk. Walk (take k (tree (fs s))) walkFn (0, s) = (None, (of_nat k, sk))))"
proof -
  obtain r1 i1 s1 where W: "Walk (tree (fs s)) walkFn (0, s) = (r1, (i1, s1))"
    by (metis prod.exhaust)
  from Walk_sent_prefix [OF W] obtain stats where
    P: "sent (conn s1) = sent (conn s) @ map StatPacket stats"
      "length stats \<le> length (tree (fs s))"
      "r1 = None \<longrightarrow> length stats = length (tree (fs s))"
      "\<forall>k<length stats. visit_stat (tree (fs s) ! k) = Some (stats ! k)
          \<and> (\<exists>sk. Walk (take k (tree (fs s))) walkFn (0, s) = (None, (0 + of_nat k, sk)))"
    by blast
  have E: "sent (conn s') = sent (conn s1) @ (if r = None then [Packet0\<lparr>Type := PACKET_STAT\<rparr>] else [])"
    and R: "r = None \<longrightarrow> r1 = None"
  proof -
    show "sent (conn s') = sent (conn s1) @ (if r = None then [Packet0\<lparr>Type := PACKET_STAT\<rparr>] else [])"
    proof (cases r1)
      case (Some e)
      with assms W show ?thesis by (auto simp: walk_def)
    next
      case None
      with assms W obtain err where
        M: "conn_SendMsg (Packet0\<lparr>Type := PACKET_STAT\<rparr>) s1 = (err, s')"
        and "r = Wrapf err ''failed to send last stat''"
        by (auto simp: walk_def split: prod.splits)
      with conn_SendMsg_sent [OF M] show ?thesis by simp
    qed
    show "r = None \<longrightarrow> r1 = None"
      using assms W by (auto simp: walk_def split: option.splits)
  qed
  from P E R show ?thesis
    by (intro exI [of _ stats]) (simp add: StatPacket_def Packet0_def)
qed

theorem stat_packets_leave_id_unset_witness:
  "walk ex_sender = (None, snd (walk ex_sender))
   \<and> (\<exists>stats. sent (conn (snd (walk ex_sender))) =
                 sent (conn ex_sender) @ map StatPacket stats @ [Packet0\<lparr>Type := PACKET_STAT\<rparr>]
         \<and> length stats = 3
         \<and> visit_stat (tree (fs ex_sender) ! 2) = Some (stats ! 2)
         \<and> ID (StatPacket (stats ! 2)) = 0
         \<and> (\<exists>sk. Walk (take 2 (tree (fs ex_sender))) walkFn (0, ex_sender) = (None, (2, sk))))"
proof -
  have 1: "walk ex_sender = (None, snd (walk ex_sender))"
    by (simp add: ex_walk)
  have 2: "length (tree (fs ex_sender)) = 3"
    by (simp add: ex_sender_def ex_fs_def)
  from stat_packets_leave_id_unset [OF 1] 2 obtain stats where
    S: "sent (conn (snd (walk ex_sender))) =
          sent (conn ex_sender) @ map StatPacket stats @ [Packet0\<lparr>Type := PACKET_STAT\<rparr>]"
       "length stats = 3"
       and "\<forall>k<length stats.
           visit_stat (tree (fs ex_sender) ! k) = Some (stats ! k)
           \<and> StatPacket (stats ! k)
               = \<lparr>Type = PACKET_STAT, Stat = Some (stats ! k), ID = 0, Data = []\<rparr>
           \<and> (\<exists>sk. Walk (take k (tree (fs ex_sender))) walkFn (0, ex_sender)
                      = (None, (of_nat k, sk)))"
    by auto
  moreover have "(2::nat) < length stats" using S(2) by simp
  ultimately have "visit_stat (tree (fs ex_sender) ! 2) = Some (stats ! 2)
           \<and> StatPacket (stats ! 2)
               = \<lparr>Type = PACKET_STAT, Stat = Some (stats ! 2), ID = 0, Data = []\<rparr>
           \<and> (\<exists>sk. Walk (take 2 (tree (fs ex_sender))) walkFn (0, ex_sender)
                      = (None, (of_nat 2, sk)))"
    by blast
  then have "visit_stat (tree (fs ex_sender) ! 2) = Some (stats ! 2)"
    "ID (StatPacket (stats ! 2)) = 0"
    "\<exists>sk. Walk (take 2 (tree (fs ex_sender))) walkFn (0, ex_sender) = (None, (2, sk))"
    by simp_all
  with 1 S(1,2) show ?thesis by blast
qed

subsection \<open>The receive loop, the workers and \<open>run\<close>\<close>

lemma only_conn_refl [simp]: "only_conn s s"
  by (simp add: only_conn_def)

lemma only_conn_trans: "only_conn s s1 \<Longrightarrow> only_conn s1 s2 \<Longrightarrow> only_conn s s2"
  by (simp add: only_conn_def)

lemma sendFile_sent:
  "sendFile h s = (r, s') \<Longrightarrow>
     only_conn s s' \<and>
     (\<exists>new. sent (conn s') = sent (conn s) @ new
        \<and> (\<forall>p\<in>set new. Type p = PACKET_DATA \<and> ID p = h_id h))"
proof (cases "Open (fs s) (h_path h)")
  case (Inl e)
  assume "sendFile h s = (r, s')"
  with Inl have M: "conn_SendMsg (DataPacket (h_id h) []) s = (r, s')"
    by (simp add: sendFile_def DataPacket_empty)
  from conn_SendMsg_sent [OF M] conn_SendMsg_only_conn [OF M] show ?thesis
    by (auto simp: DataPacket_def)
next
  case (Inr f)
  assume S: "sendFile h s = (r, s')"
  obtain n r1 s1 where C: "CopyBuffer (h_id h) f 0 s = ((n, r1), s1)"
    by (metis prod.exhaust)
  from CopyBuffer_sent [OF C] obtain chunks where
    K: "sent (conn s1) = sent (conn s) @ map (DataPacket (h_id h)) chunks" "only_conn s s1"
    by auto
  show ?thesis
  proof (cases r1)
    case None
    with S C Inr have M: "conn_SendMsg (DataPacket (h_id h) []) s1 = (r, s')"
      by (simp add: sendFile_def DataPacket_empty)
    from conn_SendMsg_sent [OF M] conn_SendMsg_only_conn [OF M] K show ?thesis
      by (auto simp: DataPacket_def only_conn_def)
  next
    case (Some err)
    with S C Inr have "s' = s1" by (auto simp: sendFile_def)
    with K show ?thesis by (auto simp: DataPacket_def)
  qed
qed


lemma workers_sent:
  "workers parent g hs s = (g', s') \<Longrightarrow>
     only_conn s s' \<and> (g' = None \<longrightarrow> g = None) \<and>
     (\<exists>new. sent (conn s') = sent (conn s) @ new \<and> (\<forall>p\<in>set new. Type p = PACKET_DATA))"
proof (induction hs arbitrary: g s)
  case Nil
  then show ?case by simp
next
  case (Cons h hs)
  obtain fl s1 where W: "worker_iter (ctx_Err parent g) h s = (fl, s1)"
    by (metis prod.exhaust)
  have S1: "only_conn s s1 \<and>
     (\<exists>new. sent (conn s1) = sent (conn s) @ new \<and> (\<forall>p\<in>set new. Type p = PACKET_DATA))"
  proof (cases "ctx_Err parent g")
    case None
    obtain r s2 where F: "sendFile h s = (r, s2)" by (metis prod.exhaust)
    with W None have "s1 = s2" by (auto simp: worker_iter_def split: option.splits)
    with sendFile_sent [OF F] show ?thesis by auto
  next
    case (Some e)
    with W have "s1 = s" by (simp add: worker_iter_def)
    then show ?thesis by simp
  qed
  show ?case
  proof (cases fl)
    case Next
    with Cons.prems W have "workers parent g hs s1 = (g', s')" by simp
    from Cons.IH [OF this] S1 show ?thesis
      by (auto intro: only_conn_trans)
  next
    case (Return r)
    with Cons.prems W have "workers parent (errOnce g r) hs s1 = (g', s')" by simp
    from Cons.IH [OF this] S1 show ?thesis
      by (auto intro: only_conn_trans simp: errOnce_def split: option.splits)
  qed
qed



lemma queue_cases:
  "queue fid s = (r, s') \<Longrightarrow>
     (files s fid = None \<and> r = Some (invalid_file_id fid) \<and> s' = s)
   \<or> (\<exists>p. files s fid = Some p \<and> r = None
         \<and> s' = s\<lparr>files := (files s)(fid := None),
                   sendpipeline := sendpipeline s @ [\<lparr>h_id = fid, h_path = p\<rparr>]\<rparr>)"
  by (auto simp: queue_def invalid_file_id_def split: option.splits)

text \<open>What one iteration of the receive loop can do.\<close>

lemma recv_iter_Next:
  "recv_iter ctxe inc s = (Next, inc', s') \<Longrightarrow>
     ctxe = None \<and> (\<exists>p. inc = Inr p # inc'
        \<and> ((Type p = PACKET_REQ \<and> queue (ID p) s = (None, s'))
           \<or> (Type p \<in> {PACKET_STAT, PACKET_DATA} \<and> s' = s)))"
  by (auto simp: recv_iter_def RecvMsg_def
           split: option.splits list.splits sum.splits PacketType.splits prod.splits)

lemma recv_iter_Return:
  "recv_iter ctxe inc s = (Return r, inc', s') \<Longrightarrow>
     (r = None \<longrightarrow> ctxe = None \<and> (\<exists>p. inc = Inr p # inc' \<and> Type p = PACKET_FIN
                       \<and> conn_SendMsg FinPacket s = (None, s')))
   \<and> only_conn s s'
   \<and> (\<exists>new. sent (conn s') = sent (conn s) @ new \<and> (\<forall>p\<in>set new. Type p = PACKET_FIN))"
  by (auto simp: recv_iter_def RecvMsg_def FinPacket_def queue_def
           dest: conn_SendMsg_sent conn_SendMsg_only_conn
           split: option.splits list.splits sum.splits PacketType.splits prod.splits)

lemma recv_iter_nil_inc: "\<exists>e. recv_iter ctxe [] s = (Return (Some e), [], s)"
  by (auto simp: recv_iter_def RecvMsg_def split: option.splits)

lemma errOnce_None [simp]: "errOnce g r = None \<longleftrightarrow> g = None \<and> r = None"
  by (auto simp: errOnce_def split: option.splits)

lemma ctx_Err_None [simp]: "ctx_Err parent g = None \<longleftrightarrow> parent = None \<and> g = None"
  by (auto simp: ctx_Err_def split: option.splits)

lemma ctx_Err_running [simp]: "ctx_Err None None = None"
  by (simp add: ctx_Err_def)

lemma queue_conn: "queue fid s = (r, s') \<Longrightarrow> conn s' = conn s \<and> fs s' = fs s"
  by (auto dest!: queue_cases)

text \<open>
  The receive loop and the workers send DATA and FIN packets only, and \<open>serve\<close> returns nil
  only after the receive loop has received FIN and sent its FIN.
\<close>

lemma serve_sent:
  "serve parent g inc s = (r, inc', s') \<Longrightarrow>
     \<exists>new. sent (conn s') = sent (conn s) @ new
        \<and> (\<forall>p\<in>set new. Type p = PACKET_DATA \<or> Type p = PACKET_FIN)"
proof (induction inc arbitrary: g s)
  case Nil
  from recv_iter_nil_inc [of "ctx_Err parent g" s] obtain e where
    R: "recv_iter (ctx_Err parent g) [] s = (Return (Some e), [], s)" by auto
  obtain g2 s2 where W: "workers parent (errOnce g (Some e)) (sendpipeline s)
       (s\<lparr>sendpipeline := [], pipeline_closed := True\<rparr>) = (g2, s2)"
    by (metis prod.exhaust)
  with Nil R have "s' = s2" by (simp add: serve.simps [of parent g "[]"])
  with workers_sent [OF W] show ?case by auto
next
  case (Cons x inc)
  obtain fl inc1 s1 where R: "recv_iter (ctx_Err parent g) (x # inc) s = (fl, inc1, s1)"
    by (metis prod.exhaust)
  show ?case
  proof (cases fl)
    case (Return r1)
    obtain g2 s2 where W: "workers parent (errOnce g r1) (sendpipeline s1)
       (s1\<lparr>sendpipeline := [], pipeline_closed := True\<rparr>) = (g2, s2)"
      by (metis prod.exhaust)
    with Cons.prems R Return have "s' = s2" by (simp add: serve.simps [of parent g "x # inc"])
    with workers_sent [OF W] recv_iter_Return [OF R [unfolded Return]] show ?thesis
      by (auto simp: only_conn_def)
  next
    case Next
    from recv_iter_Next [OF R [unfolded Next]] have i: "inc1 = inc" "conn s1 = conn s"
      by (auto dest: queue_conn)
    obtain g2 s2 where W: "workers parent g (sendpipeline s1) (s1\<lparr>sendpipeline := []\<rparr>) = (g2, s2)"
      by (metis prod.exhaust)
    with Cons.prems R Next i have "serve parent g2 inc s2 = (r, inc', s')"
      by (simp add: serve.simps [of parent g "x # inc"])
    from Cons.IH [OF this] workers_sent [OF W] i show ?thesis
      by auto
  qed
qed


lemma conn_SendMsg_keeps_reliable:
  "conn_SendMsg p s = (r, s') \<Longrightarrow> reliable (conn s) \<Longrightarrow> reliable (conn s')"
  using conn_SendMsg_reliable [of s p] by auto

text \<open>The walk touches the table and the transport only, and sends STAT packets only.\<close>

lemma walk_frame_refl [simp]: "walk_frame s s"
  by (simp add: walk_frame_def)

lemma walk_frame_trans: "walk_frame s s1 \<Longrightarrow> walk_frame s1 s2 \<Longrightarrow> walk_frame s s2"
  by (auto simp: walk_frame_def)

lemma walkFn_frame: "walkFn v (i, s) = (r, (i', s')) \<Longrightarrow> walk_frame s s'"
proof (cases "visit_stat v")
  case None
  assume "walkFn v (i, s) = (r, (i', s'))"
  with walkFn_None [OF None, of i s] show ?thesis by auto
next
  case (Some st)
  assume "walkFn v (i, s) = (r, (i', s'))"
  with walkFn_Some [OF Some, of i s] obtain err where
    M: "conn_SendMsg (StatPacket st) (record_file i st s) = (err, s')"
    by (auto split: prod.splits)
  from conn_SendMsg_sent [OF M] conn_SendMsg_only_conn [OF M]
    conn_SendMsg_keeps_reliable [OF M]
  show ?thesis
    by (auto simp: walk_frame_def only_conn_def record_file_def StatPacket_def Packet0_def)
qed

lemma Walk_frame: "Walk vs walkFn (i, s) = (r, (i', s')) \<Longrightarrow> walk_frame s s'"
proof (induction vs arbitrary: i s)
  case Nil
  then show ?case by simp
next
  case (Cons v vs)
  obtain r1 i1 s1 where 1: "walkFn v (i, s) = (r1, (i1, s1))"
    by (metis prod.exhaust)
  show ?case
  proof (cases r1)
    case None
    with Cons.prems 1 have "Walk vs walkFn (i1, s1) = (r, (i', s'))" by simp
    from walk_frame_trans [OF walkFn_frame [OF 1] Cons.IH [OF this]] show ?thesis .
  next
    case (Some e)
    with Cons.prems 1 have "s' = s1" by simp
    with walkFn_frame [OF 1] show ?thesis by simp
  qed
qed

lemma walk_walk_frame: "walk s = (r, s') \<Longrightarrow> walk_frame s s'"
proof -
  assume A: "walk s = (r, s')"
  obtain r1 i1 s1 where W: "Walk (tree (fs s)) walkFn (0, s) = (r1, (i1, s1))"
    by (metis prod.exhaust)
  show ?thesis
  proof (cases r1)
    case (Some e)
    with A W have "s' = s1" by (simp add: walk_def)
    with Walk_frame [OF W] show ?thesis by simp
  next
    case None
    with A W obtain err where M: "conn_SendMsg (Packet0\<lparr>Type := PACKET_STAT\<rparr>) s1 = (err, s')"
      by (auto simp: walk_def split: prod.splits)
    from conn_SendMsg_sent [OF M] conn_SendMsg_only_conn [OF M]
      conn_SendMsg_keeps_reliable [OF M]
    have "walk_frame s1 s'"
      by (auto simp: walk_frame_def only_conn_def Packet0_def)
    from walk_frame_trans [OF Walk_frame [OF W] this] show ?thesis .
  qed
qed

lemma walk_task_cases:
  "walk_task s = (r, s') \<Longrightarrow>
     (r = None \<and> walk s = (None, s'))
   \<or> (\<exists>err s1 r2. r = Some err \<and> walk s = (Some err, s1)
         \<and> conn_SendMsg (ErrPacket err) s1 = (r2, s'))"
  by (auto simp: walk_task_def ErrPacket_def split: prod.splits option.splits)

lemma walk_task_pipeline: "walk_task s = (r, s') \<Longrightarrow> sendpipeline s' = sendpipeline s"
  by (auto dest!: walk_task_cases walk_walk_frame conn_SendMsg_only_conn
           simp: walk_frame_def only_conn_def)





lemma conn_SendMsg_accepting:
  "conn_SendMsg p s = (r, s') \<Longrightarrow> (r = None) = accepting (conn s)"
  by (auto simp: send_defs accepting_def split: list.splits option.splits)



subsection \<open>The example sessions, evaluated\<close>

lemma ex_decimal: "decimal 0 = ''0''" "decimal 7 = ''7''"
  by code_simp+

lemmas run_defs = DiffCopy_def run_def walk_task_def walk_def walkFn_def Wrapf_def
  serve.simps recv_iter_def RecvMsg_def queue_def worker_iter_def sendFile_def
  CopyBuffer.simps Read_def bufsize_def Write_def ctx_Err_def errOnce_def
lemmas packet_defs = StatPacket_def DataPacket_def FinPacket_def ReqPacket_def ErrPacket_def
  Packet0_def


lemma ex_run_unknown_id:
  "fst (run None [Inr (ReqPacket 7)] ex_sender) = Some (Errorf ''invalid file id 7'')
   \<and> filter (\<lambda>p. Type p = PACKET_ERR)
        (sent (conn (snd (snd (run None [Inr (ReqPacket 7)] ex_sender))))) = []"
  by (simp add: run_defs packet_defs ex_defs send_defs mode_defs ex_decimal)

lemma bad_run:
  "fst (run None [Inr FinPacket] bad_sender)
     = Some (WithStack (PathError ''fileinfo without stat info'' ''x'' EBADMSG))
   \<and> sent (conn (snd (snd (run None [Inr FinPacket] bad_sender))))
       = [StatPacket (ex_stat ''a'' 420),
          Packet0\<lparr>Type := PACKET_ERR,
                  Data := bytes ''fileinfo without stat info x: bad message''\<rparr>]"
  by (simp add: run_defs packet_defs bad_sender_def bad_fs_def ex_defs send_defs mode_defs bytes_def)


subsection \<open>Requests, errors and shutdown\<close>



text \<open>
  Claim C5, as stated, fails: only the task of the walk sends an ERR packet. In the
  example the walk returns nil, the peer then requests the identifier 7, which was never
  assigned, and \<open>DiffCopy\<close> returns the invalid-file-id error of \<open>run\<close> without any ERR
  packet among the packets sent.
\<close>

theorem unknown_id_ERR_counterexample:
  "fst (walk ex_sender) = None
   \<and> fst (DiffCopy ex_fs ex_stream None [Inr (ReqPacket 7)])
       = Some (Errorf ''invalid file id 7'')
   \<and> filter (\<lambda>p. Type p = PACKET_ERR)
        (sent (conn (snd (snd (DiffCopy ex_fs ex_stream None [Inr (ReqPacket 7)]))))) = []"
  using ex_run_unknown_id
  by (simp add: DiffCopy_def ex_sender_def ex_walk [unfolded ex_sender_def])

text \<open>
  Claim C5, amended. When the walk fails, its task sends an ERR packet whose payload is
  the message of the walk's error, ignores the result of that send, and returns the
  error. This is the only ERR packet of \<open>run\<close>: an iteration of the receive loop or of a
  worker, in whatever state and context, sends no ERR packet, so errors of the receive
  loop and of the workers are returned without one; and the ERR packets sent when \<open>run\<close>
  returns are those sent before, and the one for the walk's error when the walk has failed
  and the transport has accepted the packet.
\<close>

theorem err_packet_reports_walk_failure_only:
  "(\<forall>err s1. walk s = (Some err, s1) \<longrightarrow>
       walk_task s = (Some err, snd (conn_SendMsg (ErrPacket err) s1)))
   \<and> (\<forall>fl inc' s'. recv_iter ctxe inc s = (fl, inc', s') \<longrightarrow>
         filter (\<lambda>p. Type p = PACKET_ERR) (sent (conn s'))
           = filter (\<lambda>p. Type p = PACKET_ERR) (sent (conn s)))
   \<and> (\<forall>fl s'. worker_iter ctxe h s = (fl, s') \<longrightarrow>
         filter (\<lambda>p. Type p = PACKET_ERR) (sent (conn s'))
           = filter (\<lambda>p. Type p = PACKET_ERR) (sent (conn s)))
   \<and> (\<forall>r inc' s'. run parent inc s = (r, inc', s') \<longrightarrow>
         filter (\<lambda>p. Type p = PACKET_ERR) (sent (conn s'))
           = filter (\<lambda>p. Type p = PACKET_ERR) (sent (conn s))
             @ (case walk s of
                  (Some err, s1) \<Rightarrow> if accepting (conn s1) then [ErrPacket err] else []
                | (None, s1) \<Rightarrow> []))"
proof (intro conjI impI allI)
  fix fl inc' s' assume R: "recv_iter ctxe inc s = (fl, inc', s')"
  show "filter (\<lambda>p. Type p = PACKET_ERR) (sent (conn s'))
           = filter (\<lambda>p. Type p = PACKET_ERR) (sent (conn s))"
  proof (cases fl)
    case Next
    with recv_iter_Next [of ctxe inc s inc' s'] R show ?thesis
      by (auto dest: queue_conn)
  next
    case (Return r)
    with recv_iter_Return [of ctxe inc s r inc' s'] R show ?thesis
      by (auto simp: filter_empty_conv)
  qed
next
  fix fl s' assume W: "worker_iter ctxe h s = (fl, s')"
  show "filter (\<lambda>p. Type p = PACKET_ERR) (sent (conn s'))
           = filter (\<lambda>p. Type p = PACKET_ERR) (sent (conn s))"
  proof (cases ctxe)
    case (Some e)
    with W show ?thesis by (simp add: worker_iter_def)
  next
    case None
    obtain r s2 where F: "sendFile h s = (r, s2)" by (metis prod.exhaust)
    with W None have "s' = s2" by (auto simp: worker_iter_def split: option.splits)
    with sendFile_sent [OF F] show ?thesis
      by (auto simp: filter_empty_conv)
  qed
next
  fix err s1 assume "walk s = (Some err, s1)"
  then show "walk_task s = (Some err, snd (conn_SendMsg (ErrPacket err) s1))"
    by (simp add: walk_task_def ErrPacket_def split: prod.splits)
next
  fix r inc' s' assume R: "run parent inc s = (r, inc', s')"
  let ?E = "filter (\<lambda>p. Type p = PACKET_ERR)"
  obtain rw sw where W: "walk s = (rw, sw)" by (metis prod.exhaust)
  from walk_walk_frame [OF W] obtain new where
    "sent (conn sw) = sent (conn s) @ new" "\<forall>p\<in>set new. Type p = PACKET_STAT"
    by (auto simp: walk_frame_def)
  then have 1: "?E (sent (conn sw)) = ?E (sent (conn s))"
    by (simp add: filter_empty_conv)
  obtain rt s1 where T: "walk_task s = (rt, s1)" by (metis prod.exhaust)
  with R have S: "serve parent (errOnce None rt) inc s1 = (r, inc', s')"
    by (simp add: run_def)
  from serve_sent [OF S] obtain new2 where
    "sent (conn s') = sent (conn s1) @ new2"
    "\<forall>p\<in>set new2. Type p = PACKET_DATA \<or> Type p = PACKET_FIN"
    by auto
  then have 2: "?E (sent (conn s')) = ?E (sent (conn s1))"
    by (auto simp: filter_empty_conv)
  show "?E (sent (conn s'))
           = ?E (sent (conn s))
             @ (case walk s of
                  (Some err, s1) \<Rightarrow> if accepting (conn s1) then [ErrPacket err] else []
                | (None, s1) \<Rightarrow> [])"
  proof (cases rw)
    case None
    with W T have "s1 = sw" by (simp add: walk_task_def)
    with 1 2 W None show ?thesis by simp
  next
    case (Some err)
    with W T obtain r2 where M: "conn_SendMsg (ErrPacket err) sw = (r2, s1)"
      by (auto simp: walk_task_def ErrPacket_def split: prod.splits)
    from conn_SendMsg_sent [OF M] conn_SendMsg_accepting [OF M]
    have "?E (sent (conn s1)) = ?E (sent (conn sw))
            @ (if accepting (conn sw) then [ErrPacket err] else [])"
      by (auto simp: ErrPacket_def Packet0_def)
    with 1 2 W Some show ?thesis by simp
  qed
qed

theorem err_packet_reports_walk_failure_only_witness:
  "walk bad_sender
     = (Some (WithStack (PathError ''fileinfo without stat info'' ''x'' EBADMSG)),
        snd (walk bad_sender))
   \<and> accepting (conn (snd (walk bad_sender)))
   \<and> fst (run None [Inr FinPacket] bad_sender)
       = Some (WithStack (PathError ''fileinfo without stat info'' ''x'' EBADMSG))
   \<and> filter (\<lambda>p. Type p = PACKET_ERR)
        (sent (conn (snd (snd (run None [Inr FinPacket] bad_sender)))))
       = [ErrPacket (WithStack (PathError ''fileinfo without stat info'' ''x'' EBADMSG))]
   \<and> Data (ErrPacket (WithStack (PathError ''fileinfo without stat info'' ''x'' EBADMSG)))
       = bytes ''fileinfo without stat info x: bad message''"
proof -
  let ?e = "WithStack (PathError ''fileinfo without stat info'' ''x'' EBADMSG)"
  let ?r = "run None [Inr FinPacket] bad_sender"
  have 1: "walk bad_sender = (Some ?e, snd (walk bad_sender))"
    "accepting (conn (snd (walk bad_sender)))"
    by (simp_all add: walk_def walkFn_def Wrapf_def bad_sender_def bad_fs_def ex_defs send_defs
          mode_defs accepting_def)
  have 2: "?r = (fst ?r, fst (snd ?r), snd (snd ?r))" by simp
  from err_packet_reports_walk_failure_only
         [where s = bad_sender and parent = None and inc = "[Inr FinPacket]"] 2
  have "filter (\<lambda>p. Type p = PACKET_ERR) (sent (conn (snd (snd ?r))))
          = filter (\<lambda>p. Type p = PACKET_ERR) (sent (conn bad_sender))
            @ (case walk bad_sender of
                 (Some err, s1) \<Rightarrow> if accepting (conn s1) then [ErrPacket err] else []
               | (None, s1) \<Rightarrow> [])"
    by blast
  also have "\<dots> = [ErrPacket ?e]"
    using 1(2) by (subst 1(1)) (simp add: bad_sender_def ex_stream_def)
  finally have 3: "filter (\<lambda>p. Type p = PACKET_ERR) (sent (conn (snd (snd ?r))))
          = [ErrPacket ?e]" .
  have 4: "fst ?r = Some ?e" using bad_run by simp
  have 5: "Data (ErrPacket ?e) = bytes ''fileinfo without stat info x: bad message''"
    by (simp add: ErrPacket_def Packet0_def)
  from 1 3 4 5 show ?thesis by blast
qed



subsection \<open>The completion marker\<close>

lemma empties_append [simp]: "empties fid (xs @ ys) = empties fid xs @ empties fid ys"
  by (simp add: empties_def)

lemma empties_Nil [simp]: "empties fid [] = []"
  by (simp add: empties_def)

lemma empties_none: "\<forall>p\<in>set ps. Type p \<noteq> PACKET_DATA \<Longrightarrow> empties fid ps = []"
  by (auto simp: empties_def filter_empty_conv)

lemma sendFile_packets:
  "sendFile h s = (r, s') \<Longrightarrow>
     \<exists>chunks. sent (conn s') = sent (conn s) @ map (DataPacket (h_id h)) chunks
                   @ (if r = None then [DataPacket (h_id h) []] else [])
        \<and> [] \<notin> set chunks
        \<and> (\<forall>e. Open (fs s) (h_path h) = Inl e \<longrightarrow> chunks = [])"
proof (cases "Open (fs s) (h_path h)")
  case (Inl e)
  assume "sendFile h s = (r, s')"
  with Inl have "conn_SendMsg (DataPacket (h_id h) []) s = (r, s')"
    by (simp add: sendFile_def DataPacket_empty)
  from conn_SendMsg_sent [OF this] show ?thesis
    by (intro exI [of _ "[]"]) auto
next
  case (Inr f)
  assume S: "sendFile h s = (r, s')"
  obtain n r1 s1 where C: "CopyBuffer (h_id h) f 0 s = ((n, r1), s1)"
    by (metis prod.exhaust)
  from CopyBuffer_sent [OF C] obtain chunks where
    K: "sent (conn s1) = sent (conn s) @ map (DataPacket (h_id h)) chunks"
       "[] \<notin> set chunks"
    by auto
  show ?thesis
  proof (cases r1)
    case None
    with S C Inr have "conn_SendMsg (DataPacket (h_id h) []) s1 = (r, s')"
      by (simp add: sendFile_def DataPacket_empty)
    from conn_SendMsg_sent [OF this] K Inr show ?thesis
      by (intro exI [of _ chunks]) auto
  next
    case (Some err)
    with S C Inr have "s' = s1" "r = Some err"
      by (auto simp: sendFile_def)
    with K Inr show ?thesis
      by (intro exI [of _ chunks]) auto
  qed
qed

lemma empties_chunks: "[] \<notin> set chunks \<Longrightarrow> empties fid (map (DataPacket fid') chunks) = []"
  by (induction chunks) (auto simp: empties_def DataPacket_def Packet0_def)

lemma sendFile_empties:
  assumes "sendFile h s = (r, s')"
  shows "\<exists>new. sent (conn s') = sent (conn s) @ new
           \<and> (\<forall>fid. length (empties fid new) \<le> (if fid = h_id h then 1 else 0))"
proof -
  from sendFile_packets [OF assms] obtain chunks where
    C: "sent (conn s') = sent (conn s) @ map (DataPacket (h_id h)) chunks
                   @ (if r = None then [DataPacket (h_id h) []] else [])"
       "[] \<notin> set chunks"
    by blast
  let ?new = "map (DataPacket (h_id h)) chunks @ (if r = None then [DataPacket (h_id h) []] else [])"
  have "length (empties fid ?new) \<le> (if fid = h_id h then 1 else 0)" for fid
    using empties_chunks [OF C(2), of fid "h_id h"]
    by (simp add: empties_def DataPacket_def Packet0_def)
  with C(1) show ?thesis by blast
qed

lemma worker_iter_empties:
  assumes "worker_iter ctxe h s = (fl, s')"
  shows "only_conn s s' \<and> (\<exists>new. sent (conn s') = sent (conn s) @ new
           \<and> (\<forall>fid. length (empties fid new) \<le> (if fid = h_id h then 1 else 0)))"
proof (cases ctxe)
  case (Some e)
  with assms have "s' = s" by (simp add: worker_iter_def)
  then show ?thesis by (auto intro!: exI [of _ "[]"])
next
  case None
  obtain r s2 where F: "sendFile h s = (r, s2)" by (metis prod.exhaust)
  with assms None have "s' = s2" by (auto simp: worker_iter_def split: option.splits)
  with sendFile_empties [OF F] sendFile_sent [OF F] show ?thesis by auto
qed

lemma serve_empties:
  "serve parent g inc s = (r, inc', s') \<Longrightarrow> sendpipeline s = [] \<Longrightarrow>
     \<exists>new. sent (conn s') = sent (conn s) @ new
        \<and> (\<forall>fid. length (empties fid new) \<le> (if files s fid = None then 0 else 1))"
proof (induction inc arbitrary: g s)
  case Nil
  from recv_iter_nil_inc [of "ctx_Err parent g" s] obtain e where
    R: "recv_iter (ctx_Err parent g) [] s = (Return (Some e), [], s)" by auto
  with Nil have "s' = s\<lparr>sendpipeline := [], pipeline_closed := True\<rparr>"
    by (simp add: serve.simps [of parent g "[]"])
  then show ?case by (auto intro!: exI [of _ "[]"])
next
  case (Cons x inc)
  obtain fl inc1 s1 where R: "recv_iter (ctx_Err parent g) (x # inc) s = (fl, inc1, s1)"
    by (metis prod.exhaust)
  show ?case
  proof (cases fl)
    case (Return r1)
    note RR = recv_iter_Return [OF R [unfolded Return]]
    then have P: "sendpipeline s1 = []" using Cons.prems(2) by (simp add: only_conn_def)
    with Cons.prems R Return have "s' = s1\<lparr>sendpipeline := [], pipeline_closed := True\<rparr>"
      by (auto simp: serve.simps [of parent g "x # inc"])
    with RR obtain new where "sent (conn s') = sent (conn s) @ new"
      "\<forall>p\<in>set new. Type p = PACKET_FIN" by auto
    then show ?thesis
      by (intro exI [of _ new]) (auto simp: empties_none)
  next
    case Next
    from recv_iter_Next [OF R [unfolded Next]] obtain p :: Packet where
      i: "inc1 = inc" and
      c: "(Type p = PACKET_REQ \<and> queue (ID p) s = (None, s1)) \<or> s1 = s"
      by auto
    obtain g2 s2 where W: "workers parent g (sendpipeline s1) (s1\<lparr>sendpipeline := []\<rparr>) = (g2, s2)"
      by (metis prod.exhaust)
    with Cons.prems R Next i have S: "serve parent g2 inc s2 = (r, inc', s')"
      by (simp add: serve.simps [of parent g "x # inc"])
    from workers_sent [OF W] have O: "only_conn (s1\<lparr>sendpipeline := []\<rparr>) s2" by simp
    then have P2: "sendpipeline s2 = []" "files s2 = files s1" by (simp_all add: only_conn_def)
    from Cons.IH [OF S P2(1)] obtain new2 where
      IH: "sent (conn s') = sent (conn s2) @ new2"
        "\<forall>fid. length (empties fid new2) \<le> (if files s2 fid = None then 0 else 1)"
      by blast
    from c show ?thesis
    proof
      assume e: "s1 = s"
      with W Cons.prems(2) have "conn s2 = conn s" "files s2 = files s" by auto
      with IH show ?thesis by auto
    next
      assume "Type p = PACKET_REQ \<and> queue (ID p) s = (None, s1)"
      with queue_cases [of "ID p" s None s1] Cons.prems(2) obtain path where
        q: "files s (ID p) = Some path"
           "s1 = s\<lparr>files := (files s)(ID p := None),
                   sendpipeline := [\<lparr>h_id = ID p, h_path = path\<rparr>]\<rparr>"
        by auto
      let ?h = "\<lparr>h_id = ID p, h_path = path\<rparr>"
      obtain fl2 s3 where K: "worker_iter (ctx_Err parent g) ?h (s1\<lparr>sendpipeline := []\<rparr>) = (fl2, s3)"
        by (metis prod.exhaust)
      with W q(2) have "s2 = s3" by (auto split: flow.splits)
      with worker_iter_empties [OF K] q(2) obtain new1 where
        n1: "sent (conn s2) = sent (conn s) @ new1"
          "\<forall>fid. length (empties fid new1) \<le> (if fid = ID p then 1 else 0)"
        by auto
      have "length (empties fid (new1 @ new2)) \<le> (if files s fid = None then 0 else 1)" for fid
      proof (cases "fid = ID p")
        case True
        from IH(2) [rule_format, of fid] P2(2) q True
        have "length (empties fid new2) = 0" by simp
        with n1(2) [rule_format, of fid] True q(1) show ?thesis by simp
      next
        case False
        with n1(2) [rule_format, of fid] have "length (empties fid new1) = 0" by simp
        with IH(2) [rule_format, of fid] P2(2) q False show ?thesis by simp
      qed
      with IH(1) n1(1) show ?thesis
        by (intro exI [of _ "new1 @ new2"]) simp
    qed
  qed
qed

lemma run_empties:
  assumes "run parent inc s = (r, inc', s')" and "sendpipeline s = []"
  shows "\<exists>new. sent (conn s') = sent (conn s) @ new \<and> (\<forall>fid. length (empties fid new) \<le> 1)"
proof -
  obtain rt s1 where T: "walk_task s = (rt, s1)" by (metis prod.exhaust)
  with assms have S: "serve parent (errOnce None rt) inc s1 = (r, inc', s')"
    by (simp add: run_def)
  have "\<exists>new0. sent (conn s1) = sent (conn s) @ new0 \<and> (\<forall>p\<in>set new0. Type p \<noteq> PACKET_DATA)"
    using walk_task_cases [OF T]
  proof
    assume "rt = None \<and> walk s = (None, s1)"
    with walk_walk_frame [of s None s1] show ?thesis
      by (auto simp: walk_frame_def)
  next
    assume "\<exists>err sw r2. rt = Some err \<and> walk s = (Some err, sw)
         \<and> conn_SendMsg (ErrPacket err) sw = (r2, s1)"
    then obtain err sw r2 where W: "walk s = (Some err, sw)"
      and M: "conn_SendMsg (ErrPacket err) sw = (r2, s1)" by blast
    from walk_walk_frame [OF W] conn_SendMsg_sent [OF M] show ?thesis
      by (auto simp: walk_frame_def ErrPacket_def Packet0_def)
  qed
  then obtain new0 where n0: "sent (conn s1) = sent (conn s) @ new0"
    "\<forall>p\<in>set new0. Type p \<noteq> PACKET_DATA" by blast
  from walk_task_pipeline [OF T] assms(2) have "sendpipeline s1 = []" by simp
  from serve_empties [OF S this] obtain new1 where
    n1: "sent (conn s') = sent (conn s1) @ new1"
      "\<forall>fid. length (empties fid new1) \<le> (if files s1 fid = None then 0 else 1)"
    by blast
  have "length (empties fid (new0 @ new1)) \<le> 1" for fid
    using n1(2) [rule_format, of fid] empties_none [OF n0(2), of fid]
    by (simp split: if_splits)
  with n0(1) n1(1) show ?thesis
    by (intro exI [of _ "new0 @ new1"]) simp
qed

text \<open>
  Claim C10. A write of zero bytes sends nothing. Whatever \<open>sendFile\<close> returns, the packets
  it has sent are DATA packets of the copy, none with an empty payload (none at all when
  the open failed), followed by the DATA packet with the empty payload exactly when
  \<open>sendFile\<close> returns nil: the empty DATA packet is sent at most once for a handle, last.
  And among the packets that \<open>run\<close> sends, started with an empty channel, there is at most
  one DATA packet with an empty payload for each identifier.
\<close>

theorem empty_DATA_is_completion_marker:
  "Write fid [] s = ((0, None), s)
   \<and> (\<forall>r s'. sendFile h s = (r, s') \<longrightarrow>
        (\<exists>chunks.
           sent (conn s') = sent (conn s) @ map (DataPacket (h_id h)) chunks
              @ (if r = None then [DataPacket (h_id h) []] else [])
         \<and> [] \<notin> set chunks
         \<and> (\<forall>e. Open (fs s) (h_path h) = Inl e \<longrightarrow> chunks = [])))
   \<and> (\<forall>r inc' s'. run parent inc s = (r, inc', s') \<and> sendpipeline s = [] \<longrightarrow>
        (\<exists>new. sent (conn s') = sent (conn s) @ new
           \<and> (\<forall>fid'. length (empties fid' new) \<le> 1)))"
proof (intro conjI allI impI)
  show "Write fid [] s = ((0, None), s)" by (simp add: Write_def)
next
  fix r s' assume "sendFile h s = (r, s')"
  from sendFile_packets [OF this]
  show "\<exists>chunks.
           sent (conn s') = sent (conn s) @ map (DataPacket (h_id h)) chunks
              @ (if r = None then [DataPacket (h_id h) []] else [])
         \<and> [] \<notin> set chunks
         \<and> (\<forall>e. Open (fs s) (h_path h) = Inl e \<longrightarrow> chunks = [])" .
next
  fix r inc' s' assume "run parent inc s = (r, inc', s') \<and> sendpipeline s = []"
  then show "\<exists>new. sent (conn s') = sent (conn s) @ new
           \<and> (\<forall>fid'. length (empties fid' new) \<le> 1)"
    using run_empties [of parent inc s r inc' s'] by blast
qed

theorem empty_DATA_is_completion_marker_witness:
  "sendFile \<lparr>h_id = 0, h_path = ''a''\<rparr> ex_sender
     = (None, snd (sendFile \<lparr>h_id = 0, h_path = ''a''\<rparr> ex_sender))
   \<and> (\<exists>chunks. sent (conn (snd (sendFile \<lparr>h_id = 0, h_path = ''a''\<rparr> ex_sender)))
         = sent (conn ex_sender) @ map (DataPacket 0) chunks @ [DataPacket 0 []]
       \<and> [] \<notin> set chunks)
   \<and> filter (\<lambda>p. Data p = []) (sent (conn (snd (sendFile \<lparr>h_id = 0, h_path = ''a''\<rparr> ex_sender))))
       = [DataPacket 0 []]"
proof -
  let ?h = "\<lparr>h_id = 0, h_path = ''a''\<rparr>"
  have 1: "sendFile ?h ex_sender = (None, snd (sendFile ?h ex_sender))"
    by (simp add: ex_sendFile_a)
  from empty_DATA_is_completion_marker [of 0 ex_sender ?h] 1
  have 2: "\<exists>chunks. sent (conn (snd (sendFile ?h ex_sender)))
         = sent (conn ex_sender) @ map (DataPacket 0) chunks @ [DataPacket 0 []]
       \<and> [] \<notin> set chunks"
    by fastforce
  have 3: "filter (\<lambda>p. Data p = []) (sent (conn (snd (sendFile ?h ex_sender))))
       = [DataPacket 0 []]"
    by (simp add: ex_sendFile_a DataPacket_def Packet0_def)
  from 1 2 3 show ?thesis by blast
qed

end
